theory Spec2Isabelle
  imports Main
begin

section \<open>JavaScript values and errors\<close>

text \<open>
  The module \<^verbatim>\<open>src/config.js\<close> works on dynamically typed values: parsed command-line
  flags, parsed YAML and the objects it builds from them. They are modelled by one
  datatype. An object is the list of its own enumerable properties in enumeration order;
  a number is an integer (the fractional numbers of JavaScript are left out); \<open>Fun\<close> is
  a compiled lodash template, the only function value the module stores in an object.
\<close>

datatype token = Text string | Interpolate string

datatype jsv =
    Undefined
  | Null
  | Bool bool
  | Num int
  | Str string
  | Arr "jsv list"
  | Obj "(string \<times> jsv) list"
  | Fun "token list"

text \<open>
  Every \<^verbatim>\<open>throw\<close> is a value. \<open>Error\<close> is the plain \<^verbatim>\<open>new Error(message)\<close> of the module,
  \<open>ReferenceError\<close>, \<open>TypeError\<close> and \<open>SyntaxError\<close> are raised by the language,
  \<open>SystemError\<close> carries the \<^verbatim>\<open>code\<close> property of a failed file-system or process call, and
  \<open>ValidationError\<close> is the error object Joi returns, with its list of details (path, type).
\<close>

datatype path_elem = Key string | Idx nat

type_synonym detail = "path_elem list \<times> string"

datatype js_error =
    Error string
  | ReferenceError string
  | TypeError string
  | SyntaxError string
  | SystemError string string
  | ValidationError "detail list"

fun err_code :: "js_error \<Rightarrow> string option" where
  "err_code (SystemError c m) = Some c"
| "err_code e = None"

text \<open>Truthiness, as \<^verbatim>\<open>if (x)\<close> tests it.\<close>

fun truthy :: "jsv \<Rightarrow> bool" where
  "truthy Undefined = False"
| "truthy Null = False"
| "truthy (Bool b) = b"
| "truthy (Num n) = (n \<noteq> 0)"
| "truthy (Str s) = (s \<noteq> [])"
| "truthy v = True"

text \<open>An environment variable is a string or is undefined; the empty string is falsy.\<close>

fun env_truthy :: "string option \<Rightarrow> bool" where
  "env_truthy None = False"
| "env_truthy (Some s) = (s \<noteq> [])"

text \<open>Reading, writing and deleting a property of an object (its list of properties).\<close>

fun lookup :: "(string \<times> jsv) list \<Rightarrow> string \<Rightarrow> jsv" where
  "lookup [] k = Undefined"
| "lookup ((k', v) # kvs) k = (if k' = k then v else lookup kvs k)"

fun assign :: "(string \<times> jsv) list \<Rightarrow> string \<Rightarrow> jsv \<Rightarrow> (string \<times> jsv) list" where
  "assign [] k v = [(k, v)]"
| "assign ((k', v') # kvs) k v = (if k' = k then (k, v) # kvs else (k', v') # assign kvs k v)"

definition delete_prop :: "(string \<times> jsv) list \<Rightarrow> string \<Rightarrow> (string \<times> jsv) list" where
  "delete_prop kvs k = filter (\<lambda>kv. fst kv \<noteq> k) kvs"

text \<open>
  \<^verbatim>\<open>x[0]\<close>: the first element of an array (undefined when it is empty), a \<open>TypeError\<close> on
  \<^verbatim>\<open>undefined\<close> and \<^verbatim>\<open>null\<close>.
\<close>

fun first_elem :: "jsv \<Rightarrow> js_error + jsv" where
  "first_elem (Arr []) = Inr Undefined"
| "first_elem (Arr (x # xs)) = Inr x"
| "first_elem Undefined = Inl (TypeError ''Cannot read property 0 of undefined'')"
| "first_elem Null = Inl (TypeError ''Cannot read property 0 of null'')"
| "first_elem (Str []) = Inr Undefined"
| "first_elem (Str (c # cs)) = Inr (Str [c])"
| "first_elem (Obj kvs) = Inr (lookup kvs ''0'')"
| "first_elem v = Inr Undefined"

section \<open>Strings\<close>

fun indexOf :: "string \<Rightarrow> char \<Rightarrow> int" where
  "indexOf [] c = - 1"
| "indexOf (x # xs) c =
     (if x = c then 0 else (let i = indexOf xs c in if i < 0 then - 1 else i + 1))"

definition substring :: "string \<Rightarrow> int \<Rightarrow> string" where
  "substring s n = drop (nat n) s"

definition startsWith :: "string \<Rightarrow> string \<Rightarrow> bool" where
  "startsWith s p = (take (length p) s = p)"

section \<open>The world around the module\<close>

text \<open>
  What the module imports and does not define is a parameter: the environment module
  \<^verbatim>\<open>./environment\<close> (\<open>ENV\<close>), \<^verbatim>\<open>process.env\<close>, and the library functions \<^verbatim>\<open>yargs-parser\<close>,
  \<^verbatim>\<open>child_process.execFile\<close>, \<^verbatim>\<open>fs.readFile\<close>, \<^verbatim>\<open>path.parse\<close> (its \<^verbatim>\<open>dir\<close> and \<^verbatim>\<open>name\<close>),
  \<^verbatim>\<open>path.join\<close>, the \<^verbatim>\<open>URL\<close> constructor (its \<^verbatim>\<open>protocol\<close> and \<^verbatim>\<open>pathname\<close>), \<^verbatim>\<open>YAML.parse\<close>,
  \<^verbatim>\<open>JSON.parse\<close> (Joi calls it on a string given where an array or an object is expected),
  the test Joi applies for \<^verbatim>\<open>string().uri()\<close>, and the conversion of a value that is not
  a string to a string (\<^verbatim>\<open>String(v)\<close>). \<open>argsparse\<close> returns the properties of the parsed
  object, the positional tokens under the key \<^verbatim>\<open>_\<close>.
\<close>

record url =
  protocol :: string
  pathname :: string

record world =
  ENV_CONFIG_TEMPLATE_ARGS :: "string option"
  ENV_CONFIG_PATH :: string
  process_env_CONFIG_PATH :: "string option"
  argsparse :: "string \<Rightarrow> (string \<times> jsv) list"
  execFile :: "jsv \<Rightarrow> jsv list \<Rightarrow> js_error + string"
  readFile :: "string \<Rightarrow> js_error + string"
  path_parse :: "string \<Rightarrow> string \<times> string"
  path_join :: "string \<Rightarrow> string \<Rightarrow> string"
  URL :: "string \<Rightarrow> js_error + url"
  YAML_parse :: "string \<Rightarrow> js_error + jsv"
  JSON_parse :: "string \<Rightarrow> js_error + jsv"
  is_uri :: "string \<Rightarrow> bool"
  toString :: "jsv \<Rightarrow> string"

text \<open>The file reads and process executions a call performs, in order.\<close>

datatype io_event = ReadFile string | ExecFile jsv "jsv list"

section \<open>Acquisition: \<^verbatim>\<open>getPathFromArg\<close> and \<^verbatim>\<open>getConfig\<close>\<close>

text \<open>
  \<^verbatim>\<open>getPathFromArg(arg, v)\<close>. For the flag \<^verbatim>\<open>d\<close> the methods \<^verbatim>\<open>substring\<close> and \<^verbatim>\<open>indexOf\<close>
  exist together on strings only, so any other value is a \<open>TypeError\<close>; \<^verbatim>\<open>new URL\<close> throws
  what the world's \<open>URL\<close> returns.
\<close>

definition getPathFromArg :: "world \<Rightarrow> string \<Rightarrow> jsv \<Rightarrow> js_error + jsv" where
  "getPathFromArg w arg v =
    (if arg \<in> set [''t'', ''f''] then Inr v
     else if arg = ''d'' then
       (case v of
          Str s \<Rightarrow>
            (case URL w (substring s (indexOf s CHR ''='' + 1)) of
               Inl e \<Rightarrow> Inl e
             | Inr curUrl \<Rightarrow>
                 if \<not> startsWith (protocol curUrl) ''file'' then Inr Null
                 else Inr (Str (pathname curUrl)))
        | _ \<Rightarrow> Inl (TypeError ''v.substring is not a function''))
     else Inr Null)"

text \<open>
  \<^verbatim>\<open>configDeps.add(depPath)\<close> on a \<^verbatim>\<open>Set\<close>, kept as the list of its elements in insertion
  order; the elements are compared as values.
\<close>

definition set_add :: "jsv list \<Rightarrow> jsv \<Rightarrow> jsv list" where
  "set_add s x = (if x \<in> set s then s else s @ [x])"

text \<open>
  The body shared by both branches of the reducer: compute the dependency path of one
  value, add it when truthy, push \<^verbatim>\<open>-k\<close> and the value. The state is the pair of the
  accumulator \<^verbatim>\<open>arr\<close> and the set \<^verbatim>\<open>configDeps\<close>.
\<close>

definition push_arg ::
  "world \<Rightarrow> string \<Rightarrow> jsv list \<times> jsv list \<Rightarrow> jsv \<Rightarrow> js_error + jsv list \<times> jsv list" where
  "push_arg w k st v =
    (case getPathFromArg w k v of
       Inl e \<Rightarrow> Inl e
     | Inr depPath \<Rightarrow>
         Inr (fst st @ [Str (''-'' @ k), v],
              if truthy depPath then set_add (snd st) depPath else snd st))"

fun push_each ::
  "world \<Rightarrow> string \<Rightarrow> jsv list \<times> jsv list \<Rightarrow> jsv list \<Rightarrow> js_error + jsv list \<times> jsv list" where
  "push_each w k st [] = Inr st"
| "push_each w k st (v # vs) =
     (case push_arg w k st v of Inl e \<Rightarrow> Inl e | Inr st' \<Rightarrow> push_each w k st' vs)"

text \<open>\<^verbatim>\<open>Object.keys(args).reduce(...)\<close> over the properties left after \<^verbatim>\<open>delete args._\<close>.\<close>

fun reduce_args ::
  "world \<Rightarrow> jsv list \<times> jsv list \<Rightarrow> (string \<times> jsv) list \<Rightarrow> js_error + jsv list \<times> jsv list" where
  "reduce_args w st [] = Inr st"
| "reduce_args w st ((k, curVal) # args) =
     (case (case curVal of Arr vs \<Rightarrow> push_each w k st vs | _ \<Rightarrow> push_arg w k st curVal) of
        Inl e \<Rightarrow> Inl e
      | Inr st' \<Rightarrow> reduce_args w st' args)"

record acquired =
  config :: string
  configDeps :: "jsv list"

definition conflict_message :: "string \<Rightarrow> string" where
  "conflict_message s =
     ''Use either CONFIG_PATH env or \"-f\" option of CONFIG_TEMPLATE_ARGS env ['' @ s @
     ''] but not both''"

text \<open>
  The branch of \<^verbatim>\<open>getConfig\<close> taken when \<^verbatim>\<open>ENV.CONFIG_TEMPLATE_ARGS\<close> is truthy. The
  assignment \<^verbatim>\<open>args.f = value.CONFIG_PATH\<close> reads the identifier \<^verbatim>\<open>value\<close>, which is bound
  nowhere in the scope of \<^verbatim>\<open>getConfig\<close>: evaluating it throws a \<open>ReferenceError\<close>.
\<close>

definition getConfig_command :: "world \<Rightarrow> string \<Rightarrow> (js_error + acquired) \<times> io_event list" where
  "getConfig_command w template_args =
    (let args = argsparse w template_args in
     if env_truthy (process_env_CONFIG_PATH w) then
       (if truthy (lookup args ''f'') then (Inl (Error (conflict_message template_args)), [])
        else (Inl (ReferenceError ''value is not defined''), []))
     else
       (case first_elem (lookup args ''_'') of
          Inl e \<Rightarrow> (Inl e, [])
        | Inr cmd \<Rightarrow>
            (case reduce_args w ([], []) (delete_prop args ''_'') of
               Inl e \<Rightarrow> (Inl e, [])
             | Inr (cmdArgs, deps) \<Rightarrow>
                 if cmdArgs = [] then
                   (Inl (Error ''CONFIG_TEMPLATE_ARGS env requires at least one argument''), [])
                 else
                   (case execFile w cmd cmdArgs of
                      Inl e \<Rightarrow> (Inl e, [ExecFile cmd cmdArgs])
                    | Inr stdout \<Rightarrow>
                        (Inr \<lparr>config = stdout, configDeps = deps\<rparr>, [ExecFile cmd cmdArgs])))))"

text \<open>The other branch: the two reads of \<^verbatim>\<open>curPath.yaml\<close> and \<^verbatim>\<open>curPath.yml\<close>.\<close>

definition getConfig_file :: "world \<Rightarrow> (js_error + acquired) \<times> io_event list" where
  "getConfig_file w =
    (let curPath = path_join w (fst (path_parse w (ENV_CONFIG_PATH w)))
                               (snd (path_parse w (ENV_CONFIG_PATH w)));
         yaml = curPath @ ''.yaml'';
         yml = curPath @ ''.yml''
     in
       case (case readFile w yaml of
               Inl err \<Rightarrow> if err_code err \<noteq> Some ''ENOENT'' then Inl err else Inr ()
             | Inr conf \<Rightarrow> Inr ()) of
         Inl err \<Rightarrow> (Inl err, [ReadFile yaml])
       | Inr u \<Rightarrow>
           (case readFile w yml of
              Inl err \<Rightarrow> (Inl err, [ReadFile yaml, ReadFile yml])
            | Inr conf \<Rightarrow>
                (Inr \<lparr>config = conf, configDeps = [Str curPath]\<rparr>, [ReadFile yaml, ReadFile yml])))"

definition getConfig :: "world \<Rightarrow> (js_error + acquired) \<times> io_event list" where
  "getConfig w =
    (case ENV_CONFIG_TEMPLATE_ARGS w of
       None \<Rightarrow> getConfig_file w
     | Some s \<Rightarrow> if s \<noteq> [] then getConfig_command w s else getConfig_file w)"

section \<open>Templates\<close>

text \<open>
  \<^verbatim>\<open>template(s, { interpolate: templateInterpolateReg })\<close> of lodash with the regular
  expression of the module, \<^verbatim>\<open>/\[([\w]+?)\]/g\<close>: a match is an opening bracket, one or more
  word characters and a closing bracket, found from left to right. The compiled function
  is kept as the list of its parts, and \<open>render\<close> calls it on a context: the text between
  the matches is copied, a name is replaced by its value in the context, and a name the
  context does not bind is a \<open>ReferenceError\<close>. Outside the model: the delimiters
  \<^verbatim>\<open><% %>\<close> that lodash keeps by default, names that are JavaScript keywords or numerals,
  and names inherited from the scope or a prototype.
\<close>

definition alnum :: "char \<Rightarrow> bool" where
  "alnum c = (let n = (of_char c :: nat) in
     (48 \<le> n \<and> n \<le> 57) \<or> (65 \<le> n \<and> n \<le> 90) \<or> (97 \<le> n \<and> n \<le> 122))"

definition is_word :: "char \<Rightarrow> bool" where
  "is_word c = (alnum c \<or> c = CHR ''_'')"

definition flush :: "string \<Rightarrow> token list" where
  "flush acc = (if acc = [] then [] else [Text acc])"

function tokens_acc :: "string \<Rightarrow> string \<Rightarrow> token list" where
  "tokens_acc acc [] = flush acc"
| "tokens_acc acc (c # cs) =
     (if c = CHR ''['' \<and> takeWhile is_word cs \<noteq> [] \<and> take 1 (dropWhile is_word cs) = '']''
      then flush acc @ Interpolate (takeWhile is_word cs) # tokens_acc [] (drop 1 (dropWhile is_word cs))
      else tokens_acc (acc @ [c]) cs)"
  by pat_completeness auto
termination
  by (relation "measure (\<lambda>(acc, s). length s)")
     (auto simp: less_Suc_eq_le intro: le_trans [OF diff_le_self length_dropWhile_le])

definition template_tokens :: "string \<Rightarrow> token list" where
  "template_tokens s = tokens_acc [] s"

fun render :: "token list \<Rightarrow> (string \<Rightarrow> string option) \<Rightarrow> js_error + string" where
  "render [] ctx = Inr []"
| "render (Text s # ts) ctx = (case render ts ctx of Inl e \<Rightarrow> Inl e | Inr r \<Rightarrow> Inr (s @ r))"
| "render (Interpolate n # ts) ctx =
     (case ctx n of
        None \<Rightarrow> Inl (ReferenceError (n @ '' is not defined''))
      | Some v \<Rightarrow> (case render ts ctx of Inl e \<Rightarrow> Inl e | Inr r \<Rightarrow> Inr (v @ r)))"


section \<open>Joi\<close>

text \<open>
  The schemas of the module are terms of a small schema language, and \<open>validate\<close> is
  what \<^verbatim>\<open>schema.validate(value, { abortEarly: false, allowUnknown: false, stripUnknown:
  { arrays: false, objects: true } })\<close> computes for them in Joi 15: the list of the error
  details (path and type) and the converted value. Of Joi this covers the types and rules
  the module uses, with the conversions that are on by default. An undefined value is an
  error when required and takes the default otherwise; the unknown keys of an object are
  dropped; the alternatives are tried in order, and when none accepts the value the errors
  of all of them are reported; an error of the base type ends the validation of a value, so
  the rules of an array (\<^verbatim>\<open>min\<close>, \<^verbatim>\<open>unique\<close>) run only when its items are valid.
\<close>

text \<open>
  \<^verbatim>\<open>checkUniqueField(field)\<close>, the comparator of the module. Reading a member is a
  \<open>TypeError\<close> on \<^verbatim>\<open>undefined\<close> and \<^verbatim>\<open>null\<close> and looks at own properties only; \<^verbatim>\<open>===\<close>
  compares primitive values, and is false on two arrays, objects or functions (they are
  equal only as the same reference, which a value does not record).
\<close>

fun get_member :: "jsv \<Rightarrow> string \<Rightarrow> js_error + jsv" where
  "get_member Undefined k = Inl (TypeError (''Cannot read property '' @ k @ '' of undefined''))"
| "get_member Null k = Inl (TypeError (''Cannot read property '' @ k @ '' of null''))"
| "get_member (Obj kvs) k = Inr (lookup kvs k)"
| "get_member v k = Inr Undefined"

fun strict_eq :: "jsv \<Rightarrow> jsv \<Rightarrow> bool" where
  "strict_eq Undefined Undefined = True"
| "strict_eq Null Null = True"
| "strict_eq (Bool a) (Bool b) = (a = b)"
| "strict_eq (Num a) (Num b) = (a = b)"
| "strict_eq (Str a) (Str b) = (a = b)"
| "strict_eq a b = False"

definition checkUniqueField :: "string \<Rightarrow> jsv \<Rightarrow> jsv \<Rightarrow> js_error + bool" where
  "checkUniqueField field v1 v2 =
    (let curV1 = (case v1 of Str s \<Rightarrow> Obj [(field, v1)] | _ \<Rightarrow> v1);
         curV2 = (case v2 of Str s \<Rightarrow> Obj [(field, v2)] | _ \<Rightarrow> v2)
     in case get_member curV1 field of
          Inl e \<Rightarrow> Inl e
        | Inr a \<Rightarrow>
            (case get_member curV2 field of
               Inl e \<Rightarrow> Inl e
             | Inr b \<Rightarrow> Inr (strict_eq a b \<or> strict_eq a b)))"

text \<open>The schema language: the builders and the chained rules of the Joi API.\<close>

datatype string_rule = Uri | Alphanum

datatype array_rule = Min nat | Unique "jsv \<Rightarrow> jsv \<Rightarrow> js_error + bool"

datatype schema = Schema bool "jsv option" ty
  and ty =
    TString "string_rule list"
  | TBoolean
  | TArray "schema option" bool "array_rule list"
  | TObject "(string \<times> schema) list"
  | TAlternatives "schema list"

definition Joi_string :: schema where "Joi_string = Schema False None (TString [])"
definition Joi_boolean :: schema where "Joi_boolean = Schema False None TBoolean"
definition Joi_array :: schema where "Joi_array = Schema False None (TArray None False [])"
definition Joi_object :: "(string \<times> schema) list \<Rightarrow> schema" where
  "Joi_object keys = Schema False None (TObject keys)"
definition Joi_alternatives_try :: "schema list \<Rightarrow> schema" where
  "Joi_alternatives_try ss = Schema False None (TAlternatives ss)"

fun required :: "schema \<Rightarrow> schema" where
  "required (Schema r d t) = Schema True d t"

fun default' :: "jsv \<Rightarrow> schema \<Rightarrow> schema" where
  "default' v (Schema r d t) = Schema r (Some v) t"

fun uri :: "schema \<Rightarrow> schema" where
  "uri (Schema r d (TString ts)) = Schema r d (TString (ts @ [Uri]))"
| "uri s = s"

fun alphanum :: "schema \<Rightarrow> schema" where
  "alphanum (Schema r d (TString ts)) = Schema r d (TString (ts @ [Alphanum]))"
| "alphanum s = s"

fun items :: "schema \<Rightarrow> schema \<Rightarrow> schema" where
  "items i (Schema r d (TArray incl sg ts)) = Schema r d (TArray (Some i) sg ts)"
| "items i s = s"

fun single :: "bool \<Rightarrow> schema \<Rightarrow> schema" where
  "single b (Schema r d (TArray incl sg ts)) = Schema r d (TArray incl b ts)"
| "single b s = s"

fun min' :: "nat \<Rightarrow> schema \<Rightarrow> schema" where
  "min' n (Schema r d (TArray incl sg ts)) = Schema r d (TArray incl sg (ts @ [Min n]))"
| "min' n s = s"

fun unique :: "(jsv \<Rightarrow> jsv \<Rightarrow> js_error + bool) \<Rightarrow> schema \<Rightarrow> schema" where
  "unique cmp (Schema r d (TArray incl sg ts)) = Schema r d (TArray incl sg (ts @ [Unique cmp]))"
| "unique cmp s = s"

text \<open>
  The validation engine. A validator takes the path of the value and the value; it
  returns the error details and the value, or the exception a comparator has thrown.
\<close>

type_synonym outcome = "js_error + detail list \<times> jsv"
type_synonym validator = "path_elem list \<Rightarrow> jsv \<Rightarrow> outcome"

definition any_check :: "bool \<Rightarrow> jsv option \<Rightarrow> validator \<Rightarrow> validator" where
  "any_check req d base p v =
    (if v = Undefined then
       (if req then Inr ([(p, ''any.required'')], v)
        else Inr ([], case d of None \<Rightarrow> Undefined | Some x \<Rightarrow> x))
     else base p v)"

text \<open>
  A string: the empty string is the error \<^verbatim>\<open>any.empty\<close>, after which the rules still run; the
  regular expressions of \<^verbatim>\<open>uri\<close> and \<^verbatim>\<open>alphanum\<close> both need at least one character.
\<close>

fun string_test :: "(string \<Rightarrow> bool) \<Rightarrow> path_elem list \<Rightarrow> string \<Rightarrow> string_rule \<Rightarrow> detail list" where
  "string_test U p s Uri = (if s \<noteq> [] \<and> U s then [] else [(p, ''string.uri'')])"
| "string_test U p s Alphanum =
     (if s \<noteq> [] \<and> list_all alnum s then [] else [(p, ''string.alphanum'')])"

definition string_base :: "(string \<Rightarrow> bool) \<Rightarrow> string_rule list \<Rightarrow> validator" where
  "string_base U tests p v =
    (case v of
       Str s \<Rightarrow> Inr ((if s = [] then [(p, ''any.empty'')] else []) @
                       concat (map (string_test U p s) tests), v)
     | _ \<Rightarrow> Inr ([(p, ''string.base'')], v))"

text \<open>
  A boolean: the strings \<^verbatim>\<open>true\<close> and \<^verbatim>\<open>false\<close>, in any case of the letters, are converted
  (\<^verbatim>\<open>toLowerCase\<close>, here on the letters A to Z).
\<close>

definition toLowerCase :: "string \<Rightarrow> string" where
  "toLowerCase s =
     map (\<lambda>c. if 65 \<le> (of_char c :: nat) \<and> (of_char c :: nat) \<le> 90
              then char_of ((of_char c :: nat) + 32) else c) s"

definition boolean_base :: validator where
  "boolean_base p v =
    (case (case v of
             Str s \<Rightarrow> if toLowerCase s = ''true'' then Bool True
                      else if toLowerCase s = ''false'' then Bool False else v
           | _ \<Rightarrow> v) of
       Bool b \<Rightarrow> Inr ([], Bool b)
     | _ \<Rightarrow> Inr ([(p, ''boolean.base'')], v))"

text \<open>
  \<^verbatim>\<open>safeParse\<close>: where an array or an object is expected, a string is given to
  \<^verbatim>\<open>JSON.parse\<close>, and an exception of the parser is swallowed (\<^verbatim>\<open>JSON.parse\<close> throws on the
  empty text). For an array the parsed value is taken when it is an array; for an object
  it is taken whatever it is.
\<close>

definition safeParse :: "(string \<Rightarrow> js_error + jsv) \<Rightarrow> jsv \<Rightarrow> jsv option" where
  "safeParse J v =
    (case v of
       Str s \<Rightarrow> if s = [] then None else (case J s of Inl e \<Rightarrow> None | Inr x \<Rightarrow> Some x)
     | _ \<Rightarrow> None)"

definition array_safeParse :: "(string \<Rightarrow> js_error + jsv) \<Rightarrow> jsv \<Rightarrow> jsv" where
  "array_safeParse J v = (case safeParse J v of Some (Arr xs) \<Rightarrow> Arr xs | _ \<Rightarrow> v)"

definition object_safeParse :: "(string \<Rightarrow> js_error + jsv) \<Rightarrow> jsv \<Rightarrow> jsv" where
  "object_safeParse J v = (case safeParse J v of Some x \<Rightarrow> x | None \<Rightarrow> v)"

text \<open>
  The items of an array. An item of a true array is validated at the path of the array
  extended by its index; a value that \<^verbatim>\<open>single\<close> has wrapped is validated at the path of the
  array itself. A valid item is replaced by its converted value.
\<close>

definition item_path :: "bool \<Rightarrow> path_elem list \<Rightarrow> nat \<Rightarrow> path_elem list" where
  "item_path wasArray p i = (if wasArray then p @ [Idx i] else p)"

fun check_items ::
  "validator option \<Rightarrow> bool \<Rightarrow> path_elem list \<Rightarrow> nat \<Rightarrow> jsv list \<Rightarrow>
   js_error + detail list \<times> jsv list" where
  "check_items incl wasArray p i [] = Inr ([], [])"
| "check_items incl wasArray p i (x # xs) =
     (case (if x = Undefined then Inr ([(item_path wasArray p i, ''array.sparse'')], x)
            else case incl of None \<Rightarrow> Inr ([], x) | Some s \<Rightarrow> s (item_path wasArray p i) x) of
        Inl e \<Rightarrow> Inl e
      | Inr (errs, x') \<Rightarrow>
          (case check_items incl wasArray p (Suc i) xs of
             Inl e \<Rightarrow> Inl e
           | Inr (errs', xs') \<Rightarrow> Inr (errs @ errs', (if errs = [] then x' else x) # xs')))"

text \<open>
  The rule \<^verbatim>\<open>unique(comparator)\<close>: each item is compared with the items before it, as
  \<^verbatim>\<open>comparator(earlier, item)\<close>; the first item that has a duplicate is reported.
\<close>

fun find_dupe :: "(jsv \<Rightarrow> jsv \<Rightarrow> js_error + bool) \<Rightarrow> jsv list \<Rightarrow> jsv \<Rightarrow> js_error + bool" where
  "find_dupe cmp [] item = Inr False"
| "find_dupe cmp (r # records) item =
     (case cmp r item of
        Inl e \<Rightarrow> Inl e
      | Inr b \<Rightarrow> if b then Inr True else find_dupe cmp records item)"

fun unique_scan ::
  "(jsv \<Rightarrow> jsv \<Rightarrow> js_error + bool) \<Rightarrow> jsv list \<Rightarrow> nat \<Rightarrow> jsv list \<Rightarrow> js_error + nat option" where
  "unique_scan cmp records i [] = Inr None"
| "unique_scan cmp records i (item # rest) =
     (case find_dupe cmp records item of
        Inl e \<Rightarrow> Inl e
      | Inr b \<Rightarrow> if b then Inr (Some i) else unique_scan cmp (records @ [item]) (Suc i) rest)"

fun array_test :: "path_elem list \<Rightarrow> jsv list \<Rightarrow> array_rule \<Rightarrow> js_error + detail list" where
  "array_test p xs (Min n) = Inr (if length xs < n then [(p, ''array.min'')] else [])"
| "array_test p xs (Unique cmp) =
     (case unique_scan cmp [] 0 xs of
        Inl e \<Rightarrow> Inl e
      | Inr None \<Rightarrow> Inr []
      | Inr (Some i) \<Rightarrow> Inr [(p @ [Idx i], ''array.unique'')])"

fun array_tests :: "path_elem list \<Rightarrow> jsv list \<Rightarrow> array_rule list \<Rightarrow> js_error + detail list" where
  "array_tests p xs [] = Inr []"
| "array_tests p xs (t # ts) =
     (case array_test p xs t of
        Inl e \<Rightarrow> Inl e
      | Inr errs \<Rightarrow> (case array_tests p xs ts of Inl e \<Rightarrow> Inl e | Inr errs' \<Rightarrow> Inr (errs @ errs')))"

definition run_array_tests :: "path_elem list \<Rightarrow> jsv list \<Rightarrow> array_rule list \<Rightarrow> outcome" where
  "run_array_tests p xs tests =
     (case array_tests p xs tests of Inl e \<Rightarrow> Inl e | Inr errs \<Rightarrow> Inr (errs, Arr xs))"

text \<open>
  An array: a string that is the JSON text of an array is converted; with \<^verbatim>\<open>single\<close>, a value
  that is not an array is wrapped; the items are checked, and their errors end the
  validation of the array (with \<^verbatim>\<open>single\<close>, after a second attempt on the array wrapped as
  one item); then the rules run.
\<close>

definition array_base ::
  "(string \<Rightarrow> js_error + jsv) \<Rightarrow> validator option \<Rightarrow> bool \<Rightarrow> array_rule list \<Rightarrow> validator" where
  "array_base J incl sg tests p v =
    (case (case array_safeParse J v of
             Arr xs \<Rightarrow> Some (True, xs)
           | value \<Rightarrow> if sg then Some (False, [value]) else None) of
       None \<Rightarrow> Inr ([(p, ''array.base'')], v)
     | Some (wasArray, xs) \<Rightarrow>
         (case check_items incl wasArray p 0 xs of
            Inl e \<Rightarrow> Inl e
          | Inr (errs, xs') \<Rightarrow>
              if errs = [] then run_array_tests p xs' tests
              else if wasArray \<and> sg then
                (case check_items incl wasArray p 0 [Arr xs'] of
                   Inl e \<Rightarrow> Inl e
                 | Inr (errs2, ys) \<Rightarrow>
                     if errs2 = [] then run_array_tests p ys tests else Inr (errs, Arr xs'))
              else Inr (errs, Arr xs')))"

text \<open>
  An object: a string that is JSON text is converted; the declared keys are validated in
  order, a valid defined value is written back, and the keys that are not declared are
  removed.
\<close>

fun check_keys ::
  "(string \<times> validator) list \<Rightarrow> path_elem list \<Rightarrow> (string \<times> jsv) list \<Rightarrow>
   js_error + detail list \<times> (string \<times> jsv) list" where
  "check_keys [] p target = Inr ([], target)"
| "check_keys ((key, s) # children) p target =
     (case s (p @ [Key key]) (lookup target key) of
        Inl e \<Rightarrow> Inl e
      | Inr (errs, v') \<Rightarrow>
          (case check_keys children p
                  (if errs = [] \<and> v' \<noteq> Undefined then assign target key v' else target) of
             Inl e \<Rightarrow> Inl e
           | Inr (errs', target') \<Rightarrow> Inr (errs @ errs', target')))"

definition object_base :: "(string \<Rightarrow> js_error + jsv) \<Rightarrow> (string \<times> validator) list \<Rightarrow> validator" where
  "object_base J children p v =
    (case object_safeParse J v of
       Obj kvs \<Rightarrow>
         (case check_keys children p kvs of
            Inl e \<Rightarrow> Inl e
          | Inr (errs, target) \<Rightarrow>
              Inr (errs, Obj (filter (\<lambda>kv. fst kv \<in> set (map fst children)) target)))
     | _ \<Rightarrow> Inr ([(p, ''object.base'')], v))"

fun try_alternatives :: "validator list \<Rightarrow> detail list \<Rightarrow> validator" where
  "try_alternatives [] errors p v =
     Inr (if errors = [] then [(p, ''alternatives.base'')] else errors, v)"
| "try_alternatives (s # ss) errors p v =
     (case s p v of
        Inl e \<Rightarrow> Inl e
      | Inr (errs, v') \<Rightarrow> if errs = [] then Inr ([], v') else try_alternatives ss (errors @ errs) p v)"

primrec validate :: "world \<Rightarrow> schema \<Rightarrow> validator"
  and validate_ty :: "world \<Rightarrow> ty \<Rightarrow> validator" where
  "validate w (Schema req d t) = any_check req d (validate_ty w t)"
| "validate_ty w (TString tests) = string_base (is_uri w) tests"
| "validate_ty w TBoolean = boolean_base"
| "validate_ty w (TArray incl sg tests) =
     array_base (JSON_parse w) (map_option (validate w) incl) sg tests"
| "validate_ty w (TObject children) =
     object_base (JSON_parse w) (map (map_prod id (validate w)) children)"
| "validate_ty w (TAlternatives ss) = try_alternatives (map (validate w) ss) []"


section \<open>The schemas of the module\<close>

text \<open>The declarations of \<^verbatim>\<open>src/config.js\<close>, lines 33 to 90, rule by rule.\<close>

definition argsSchema :: schema where
  "argsSchema = min' 1 Joi_array"

definition onChangeCmdSchema :: schema where
  "onChangeCmdSchema = min' 1 Joi_array"

definition onChangeSchema :: schema where
  "onChangeSchema = Joi_alternatives_try
    [onChangeCmdSchema,
     Joi_object
       [(''command'', onChangeCmdSchema),
        (''stdout'', default' (Bool False) Joi_boolean),
        (''stderr'', default' (Bool True) Joi_boolean)]]"

definition DataSourceSchema :: schema where
  "DataSourceSchema = Joi_alternatives_try
    [required Joi_string,
     Joi_object
       [(''url'', required (uri Joi_string)),
        (''alias'', alphanum Joi_string),
        (''on_change'', onChangeSchema),
        (''args'', argsSchema)]]"

definition FileSchema :: schema where
  "FileSchema = Joi_alternatives_try
    [required Joi_string,
     Joi_object
       [(''left_delimiter'', Joi_string),
        (''right_delimiter'', Joi_string),
        (''input_path'', required Joi_string),
        (''output_path'', Joi_string),
        (''on_change'', onChangeSchema),
        (''args'', argsSchema)]]"

definition FilePathSchema :: schema where
  "FilePathSchema = Joi_alternatives_try
    [required Joi_string,
     Joi_object
       [(''path'', required Joi_string),
        (''on_change'', onChangeSchema),
        (''args'', argsSchema)]]"

definition ConfigItemSchema :: schema where
  "ConfigItemSchema = Joi_object
    [(''watch'', default' (Bool False) Joi_boolean),
     (''dependencies'',
        default' (Arr []) (unique (checkUniqueField ''path'') (items FilePathSchema Joi_array))),
     (''templates'',
        default' (Arr []) (unique (checkUniqueField ''path'') (items FilePathSchema Joi_array))),
     (''datasources'',
        default' (Arr []) (unique (checkUniqueField ''url'') (items DataSourceSchema Joi_array))),
     (''files'',
        unique (checkUniqueField ''input_path'') (default' (Arr []) (items FileSchema Joi_array))),
     (''on_change'', onChangeSchema),
     (''args'', argsSchema)]"

definition ConfigSchema :: schema where
  "ConfigSchema = min' 1 (single True (items ConfigItemSchema Joi_array))"

section \<open>Normalisation: the mapping functions and \<^verbatim>\<open>parseConfig\<close>\<close>

text \<open>
  \<open>template\<close> is the call \<^verbatim>\<open>template(v, { interpolate: templateInterpolateReg })\<close>: lodash
  reads \<^verbatim>\<open>undefined\<close> and \<^verbatim>\<open>null\<close> as the empty string. \<open>shorthand\<close> is the common start of
  the three mapping functions: \<^verbatim>\<open>curV = { field: null }\<close>, then \<^verbatim>\<open>curV.field = v\<close> for a string
  and \<^verbatim>\<open>Object.assign(curV, v)\<close> otherwise; \<open>map_on_change_prop\<close> is their common
  \<^verbatim>\<open>if (curV.on_change) curV.on_change = mapOnChange(curV.on_change)\<close>.
\<close>

definition js_string :: "world \<Rightarrow> jsv \<Rightarrow> string" where
  "js_string w v = (case v of Str s \<Rightarrow> s | _ \<Rightarrow> toString w v)"

definition template :: "world \<Rightarrow> jsv \<Rightarrow> token list" where
  "template w v =
     template_tokens (case v of Undefined \<Rightarrow> [] | Null \<Rightarrow> [] | _ \<Rightarrow> js_string w v)"

fun own_properties :: "world \<Rightarrow> jsv \<Rightarrow> (string \<times> jsv) list" where
  "own_properties w (Obj kvs) = kvs"
| "own_properties w (Arr xs) = map (\<lambda>ix. (toString w (Num (int (fst ix))), snd ix)) (enumerate 0 xs)"
| "own_properties w (Str s) = map (\<lambda>ic. (toString w (Num (int (fst ic))), Str [snd ic])) (enumerate 0 s)"
| "own_properties w v = []"

definition object_assign :: "world \<Rightarrow> (string \<times> jsv) list \<Rightarrow> jsv \<Rightarrow> (string \<times> jsv) list" where
  "object_assign w target source =
     fold (\<lambda>kv t. assign t (fst kv) (snd kv)) (own_properties w source) target"

definition mapOnChange :: "jsv \<Rightarrow> jsv" where
  "mapOnChange v =
    (case v of
       Arr xs \<Rightarrow> Obj [(''command'', v), (''stdout'', Bool False), (''stderr'', Bool True)]
     | _ \<Rightarrow> v)"

definition map_on_change_prop :: "(string \<times> jsv) list \<Rightarrow> (string \<times> jsv) list" where
  "map_on_change_prop curV =
    (if truthy (lookup curV ''on_change'')
     then assign curV ''on_change'' (mapOnChange (lookup curV ''on_change''))
     else curV)"

definition shorthand :: "world \<Rightarrow> string \<Rightarrow> jsv \<Rightarrow> (string \<times> jsv) list" where
  "shorthand w field v =
    (case v of
       Str s \<Rightarrow> assign [(field, Null)] field v
     | _ \<Rightarrow> object_assign w [(field, Null)] v)"

definition mapDataSource :: "world \<Rightarrow> jsv \<Rightarrow> js_error + jsv" where
  "mapDataSource w v =
    (let curV = map_on_change_prop (shorthand w ''url'' v) in
     case URL w (js_string w (lookup curV ''url'')) of
       Inl e \<Rightarrow> Inl e
     | Inr curUrl \<Rightarrow>
         Inr (Obj (if startsWith (protocol curUrl) ''file''
                   then assign (assign curV ''path'' (Str (pathname curUrl)))
                          ''makeAlias'' (Fun (template w (lookup curV ''alias'')))
                   else curV)))"

definition mapFile :: "world \<Rightarrow> jsv \<Rightarrow> jsv" where
  "mapFile w v =
    (let curV = map_on_change_prop (shorthand w ''input_path'' v) in
     Obj (if truthy (lookup curV ''output_path'')
          then assign curV ''makeOutputPath'' (Fun (template w (lookup curV ''output_path'')))
          else curV))"

definition mapFilePath :: "world \<Rightarrow> jsv \<Rightarrow> jsv" where
  "mapFilePath w v = Obj (map_on_change_prop (shorthand w ''path'' v))"

fun map_result :: "('a \<Rightarrow> js_error + 'b) \<Rightarrow> 'a list \<Rightarrow> js_error + 'b list" where
  "map_result f [] = Inr []"
| "map_result f (x # xs) =
     (case f x of
        Inl e \<Rightarrow> Inl e
      | Inr y \<Rightarrow> (case map_result f xs of Inl e \<Rightarrow> Inl e | Inr ys \<Rightarrow> Inr (y # ys)))"

definition array_map :: "(jsv \<Rightarrow> js_error + jsv) \<Rightarrow> jsv \<Rightarrow> js_error + jsv list" where
  "array_map f v =
    (case v of Arr xs \<Rightarrow> map_result f xs | _ \<Rightarrow> Inl (TypeError ''map is not a function''))"

text \<open>
  The predicate of the partition, \<^verbatim>\<open>v.path != null\<close>, on the objects \<open>mapDataSource\<close> returns;
  \<open>partition\<close> of the list library is the one of lodash: the elements that satisfy the
  predicate and the others, each in their order.
\<close>

definition has_path :: "jsv \<Rightarrow> bool" where
  "has_path v =
    (case v of Obj kvs \<Rightarrow> lookup kvs ''path'' \<noteq> Null \<and> lookup kvs ''path'' \<noteq> Undefined | _ \<Rightarrow> False)"

text \<open>The callback of \<^verbatim>\<open>value.map\<close> in \<^verbatim>\<open>parseConfig\<close>, and \<^verbatim>\<open>parseConfig\<close>.\<close>

definition normalize_item :: "world \<Rightarrow> jsv \<Rightarrow> js_error + jsv" where
  "normalize_item w item =
    (case item of
       Obj kvs \<Rightarrow>
         (let item1 = map_on_change_prop kvs in
          case array_map (mapDataSource w) (lookup item1 ''datasources'') of
            Inl e \<Rightarrow> Inl e
          | Inr datasources \<Rightarrow>
              (let item2 = assign item1 ''fileDataSources'' (Arr (fst (partition has_path datasources)));
                   item3 = assign item2 ''otherDataSources'' (Arr (snd (partition has_path datasources)))
               in
               case array_map (\<lambda>v. Inr (mapFilePath w v)) (lookup item3 ''dependencies'') of
                 Inl e \<Rightarrow> Inl e
               | Inr dependencies \<Rightarrow>
                   (let item4 = assign item3 ''dependencies'' (Arr dependencies) in
                    case array_map (\<lambda>v. Inr (mapFilePath w v)) (lookup item4 ''templates'') of
                      Inl e \<Rightarrow> Inl e
                    | Inr templates \<Rightarrow>
                        (let item5 = assign item4 ''templates'' (Arr templates) in
                         case array_map (\<lambda>v. Inr (mapFile w v)) (lookup item5 ''files'') of
                           Inl e \<Rightarrow> Inl e
                         | Inr files \<Rightarrow> Inr (Obj (assign item5 ''files'' (Arr files)))))))
     | _ \<Rightarrow> Inl (TypeError ''Cannot read property map of undefined''))"

definition parseConfig :: "world \<Rightarrow> string \<Rightarrow> js_error + jsv" where
  "parseConfig w conf =
    (case YAML_parse w conf of
       Inl e \<Rightarrow> Inl e
     | Inr curData \<Rightarrow>
         (case validate w ConfigSchema [] curData of
            Inl e \<Rightarrow> Inl e
          | Inr (errors, val) \<Rightarrow>
              if errors \<noteq> [] then Inl (ValidationError errors)
              else (case array_map (normalize_item w) val of
                      Inl e \<Rightarrow> Inl e
                    | Inr normalized \<Rightarrow> Inr (Arr normalized))))"

section \<open>The vocabulary of the specification\<close>

text \<open>
  The identifying field of an entity, as the specification has it: a bare string stands
  for the object that holds it under the identifying field, so it is its own identifying
  field; an object has it under the key.
\<close>

definition identifying_field :: "string \<Rightarrow> jsv \<Rightarrow> jsv" where
  "identifying_field field v = (case v of Str s \<Rightarrow> Str s | Obj kvs \<Rightarrow> lookup kvs field | _ \<Rightarrow> Undefined)"

text \<open>
  All the violations of a document, as the specification asks for them ("all structural
  violations across the whole document ... never partial"): every rule of the schema that
  a value breaks, with nothing skipped. \<open>all_violations\<close> reads a schema as \<open>validate\<close> does,
  except for an array: the violations of the items are collected, and the rules of the
  array (\<^verbatim>\<open>min\<close>, \<^verbatim>\<open>unique\<close>) are checked as well, whether or not an item is in violation. The
  rule \<^verbatim>\<open>unique\<close> is checked on the valid items: every valid item that the comparator finds
  equal to an earlier valid item is a duplicate, and each duplicate is a violation.
\<close>

fun duplicates ::
  "(jsv \<Rightarrow> jsv \<Rightarrow> js_error + bool) \<Rightarrow> jsv list \<Rightarrow> nat \<Rightarrow> (bool \<times> jsv) list \<Rightarrow> nat list" where
  "duplicates cmp records i [] = []"
| "duplicates cmp records i ((ok, item) # rest) =
     (if ok then
        (if list_ex (\<lambda>r. cmp r item = Inr True) records
         then i # duplicates cmp (records @ [item]) (Suc i) rest
         else duplicates cmp (records @ [item]) (Suc i) rest)
      else duplicates cmp records (Suc i) rest)"

fun rule_violation :: "path_elem list \<Rightarrow> (bool \<times> jsv) list \<Rightarrow> array_rule \<Rightarrow> detail list" where
  "rule_violation p its (Min n) = (if length its < n then [(p, ''array.min'')] else [])"
| "rule_violation p its (Unique cmp) =
     map (\<lambda>i. (p @ [Idx i], ''array.unique'')) (duplicates cmp [] 0 its)"

fun item_results ::
  "validator option \<Rightarrow> bool \<Rightarrow> path_elem list \<Rightarrow> nat \<Rightarrow> jsv list \<Rightarrow>
   js_error + (detail list \<times> jsv) list" where
  "item_results incl wasArray p i [] = Inr []"
| "item_results incl wasArray p i (x # xs) =
     (case (if x = Undefined then Inr ([(item_path wasArray p i, ''array.sparse'')], x)
            else case incl of None \<Rightarrow> Inr ([], x) | Some s \<Rightarrow> s (item_path wasArray p i) x) of
        Inl e \<Rightarrow> Inl e
      | Inr (errs, x') \<Rightarrow>
          (case item_results incl wasArray p (Suc i) xs of
             Inl e \<Rightarrow> Inl e
           | Inr rs \<Rightarrow> Inr ((errs, if errs = [] then x' else x) # rs)))"

definition array_all ::
  "(string \<Rightarrow> js_error + jsv) \<Rightarrow> validator option \<Rightarrow> bool \<Rightarrow> array_rule list \<Rightarrow> validator" where
  "array_all J incl sg tests p v =
    (case (case array_safeParse J v of
             Arr xs \<Rightarrow> Some (True, xs)
           | value \<Rightarrow> if sg then Some (False, [value]) else None) of
       None \<Rightarrow> Inr ([(p, ''array.base'')], v)
     | Some (wasArray, xs) \<Rightarrow>
         (case item_results incl wasArray p 0 xs of
            Inl e \<Rightarrow> Inl e
          | Inr rs \<Rightarrow>
              Inr (concat (map fst rs) @
                   concat (map (rule_violation p (map (\<lambda>r. (fst r = [], snd r)) rs)) tests),
                   Arr (map snd rs))))"

primrec all_violations :: "world \<Rightarrow> schema \<Rightarrow> validator"
  and all_violations_ty :: "world \<Rightarrow> ty \<Rightarrow> validator" where
  "all_violations w (Schema req d t) = any_check req d (all_violations_ty w t)"
| "all_violations_ty w (TString tests) = string_base (is_uri w) tests"
| "all_violations_ty w TBoolean = boolean_base"
| "all_violations_ty w (TArray incl sg tests) =
     array_all (JSON_parse w) (map_option (all_violations w) incl) sg tests"
| "all_violations_ty w (TObject children) =
     object_base (JSON_parse w) (map (map_prod id (all_violations w)) children)"
| "all_violations_ty w (TAlternatives ss) = try_alternatives (map (all_violations w) ss) []"

text \<open>
  A violation that is not reported is \<open>masked\<close> when it is the violation of the rule of an
  array (\<^verbatim>\<open>array.min\<close> at the path of the array, \<^verbatim>\<open>array.unique\<close> at the path of one of its
  positions) and either a violation is reported inside an item of that array, or it is a
  duplicate and another duplicate of the same array is reported.
\<close>

fun inside_item :: "path_elem list \<Rightarrow> path_elem list \<Rightarrow> bool" where
  "inside_item [] (Idx i # rest) = True"
| "inside_item [] path = False"
| "inside_item (a # q) (b # path) = (a = b \<and> inside_item q path)"
| "inside_item (a # q) [] = False"

definition array_of :: "detail \<Rightarrow> path_elem list" where
  "array_of d = (if snd d = ''array.unique'' then butlast (fst d) else fst d)"

definition masked :: "detail \<Rightarrow> detail list \<Rightarrow> bool" where
  "masked d reported =
     ((snd d = ''array.min'' \<or> snd d = ''array.unique'') \<and>
      (list_ex (\<lambda>d'. inside_item (array_of d) (fst d')) reported \<or>
       snd d = ''array.unique'' \<and>
       list_ex (\<lambda>d'. snd d' = ''array.unique'' \<and> array_of d' = array_of d \<and> d' \<noteq> d) reported))"

text \<open>
  For the comparison of the two readings: a schema without \<^verbatim>\<open>single\<close>; an outcome that is a
  value and whose details lie at or below a path; what one outcome reports against all
  the violations of another; and two validators so related on every value.
\<close>

primrec no_single :: "schema \<Rightarrow> bool" and no_single_ty :: "ty \<Rightarrow> bool" where
  "no_single (Schema req d t) = no_single_ty t"
| "no_single_ty (TString tests) = True"
| "no_single_ty TBoolean = True"
| "no_single_ty (TArray incl sg tests) =
     (\<not> sg \<and> (case map_option no_single incl of None \<Rightarrow> True | Some b \<Rightarrow> b))"
| "no_single_ty (TObject children) = list_all snd (map (map_prod id no_single) children)"
| "no_single_ty (TAlternatives ss) = list_all id (map no_single ss)"

definition placed :: "path_elem list \<Rightarrow> outcome \<Rightarrow> bool" where
  "placed p r = (\<exists>e v. r = Inr (e, v) \<and> (\<forall>d \<in> set e. \<exists>x. fst d = p @ x))"

definition covers :: "detail list \<Rightarrow> jsv \<Rightarrow> detail list \<Rightarrow> jsv \<Rightarrow> bool" where
  "covers e1 v1 e2 v2 =
     (set e1 \<subseteq> set e2 \<and> (e1 = [] \<longrightarrow> v1 = v2) \<and> (\<forall>d \<in> set e2. d \<in> set e1 \<or> masked d e1))"

definition related :: "validator \<Rightarrow> validator \<Rightarrow> bool" where
  "related s1 s2 =
     (\<forall>p v e1 v1 e2 v2. s1 p v = Inr (e1, v1) \<longrightarrow> s2 p v = Inr (e2, v2) \<longrightarrow> covers e1 v1 e2 v2)"

section \<open>Stand-ins for the library functions\<close>

text \<open>
  Concrete values for the parameters, used only to instantiate the theorems below.
  \<open>URL_basic\<close> reads a URL of the shape \<^verbatim>\<open>scheme://authority/path\<close> or \<^verbatim>\<open>scheme:path\<close>
  (no query, fragment, escapes or dot segments); \<open>path_parse_basic\<close> and
  \<open>path_join_basic\<close> handle a path \<^verbatim>\<open>dir/name.ext\<close> that is already normalised. In
  \<open>world0\<close> no variable of the environment but \<^verbatim>\<open>ENV.CONFIG_PATH\<close> is set, no file exists,
  \<^verbatim>\<open>execFile\<close> rejects a command that is not a string as Node does, no string is JSON text,
  and a string with a colon counts as a URI; the theorems replace the fields they need.
\<close>

definition URL_basic :: "string \<Rightarrow> js_error + url" where
  "URL_basic s =
    (let scheme = takeWhile (\<lambda>c. c \<noteq> CHR '':'') s;
         rest = drop (length scheme + 1) s
     in if scheme = [] \<or> length scheme = length s then Inl (TypeError ''Invalid URL'')
        else Inr \<lparr>protocol = scheme @ '':'',
                  pathname = (if startsWith rest ''//'' then dropWhile (\<lambda>c. c \<noteq> CHR ''/'') (drop 2 rest) else rest)\<rparr>)"

definition path_parse_basic :: "string \<Rightarrow> string \<times> string" where
  "path_parse_basic p =
    (let base = rev (takeWhile (\<lambda>c. c \<noteq> CHR ''/'') (rev p));
         dir = rev (drop 1 (dropWhile (\<lambda>c. c \<noteq> CHR ''/'') (rev p)));
         name = (if CHR ''.'' \<in> set (drop 1 base)
                 then rev (drop 1 (dropWhile (\<lambda>c. c \<noteq> CHR ''.'') (rev base))) else base)
     in (dir, name))"

definition path_join_basic :: "string \<Rightarrow> string \<Rightarrow> string" where
  "path_join_basic dir name = (if dir = [] then name else dir @ ''/'' @ name)"

definition world0 :: world where
  "world0 =
    \<lparr>ENV_CONFIG_TEMPLATE_ARGS = None,
     ENV_CONFIG_PATH = ''/etc/app/config.yml'',
     process_env_CONFIG_PATH = None,
     argsparse = (\<lambda>s. [(''_'', Arr [])]),
     execFile = (\<lambda>cmd args. case cmd of Str c \<Rightarrow> Inr ''watch: true''
                 | _ \<Rightarrow> Inl (TypeError ''The file argument must be of type string'')),
     readFile = (\<lambda>p. Inl (SystemError ''ENOENT'' ''no such file or directory'')),
     path_parse = path_parse_basic,
     path_join = path_join_basic,
     URL = URL_basic,
     YAML_parse = (\<lambda>s. Inr Null),
     JSON_parse = (\<lambda>s. Inl (SyntaxError ''Unexpected token'')),
     is_uri = (\<lambda>s. CHR '':'' \<in> set s),
     toString = (\<lambda>v. case v of Undefined \<Rightarrow> ''undefined'' | Null \<Rightarrow> ''null''
                 | Bool b \<Rightarrow> (if b then ''true'' else ''false'') | _ \<Rightarrow> ''[object Object]'')\<rparr>"

section \<open>Properties of the acquisition\<close>

lemma indexOf_first: "c \<notin> set a \<Longrightarrow> indexOf (a @ c # b) c = int (length a)"
  by (induction a) (auto simp: Let_def)

lemma substring_after_first: "c \<notin> set a \<Longrightarrow> substring (a @ c # b) (indexOf (a @ c # b) c + 1) = b"
  by (simp add: indexOf_first substring_def nat_add_distrib)

text \<open>
  Whenever \<^verbatim>\<open>process.env.CONFIG_PATH\<close> is set and the parsed flags hold no truthy \<^verbatim>\<open>f\<close>, the
  command branch ends at the assignment \<^verbatim>\<open>args.f = value.CONFIG_PATH\<close>.
\<close>

lemma getConfig_inject_throws:
  assumes "ENV_CONFIG_TEMPLATE_ARGS w = Some s" and "s \<noteq> []"
    and "env_truthy (process_env_CONFIG_PATH w)"
    and "\<not> truthy (lookup (argsparse w s) ''f'')"
  shows "getConfig w = (Inl (ReferenceError ''value is not defined''), [])"
  using assms by (simp add: getConfig_def getConfig_command_def)

text \<open>
  C1 as stated fails. With \<^verbatim>\<open>CONFIG_TEMPLATE_ARGS="gomplate -f 0"\<close> the parsed flags hold the
  file flag \<^verbatim>\<open>f\<close>, with the number 0 as its value, and \<^verbatim>\<open>CONFIG_PATH\<close> is set; \<^verbatim>\<open>getConfig\<close>
  does not throw the conflict error. The guard \<^verbatim>\<open>if (args.f)\<close> tests the value of the flag, not
  its presence: 0 is falsy, the guard is passed over, and the call ends at the assignment
  that follows it.
\<close>

theorem getConfig_conflict_counterexample:
  "lookup (argsparse (world0\<lparr>ENV_CONFIG_TEMPLATE_ARGS := Some ''gomplate -f 0'',
       process_env_CONFIG_PATH := Some ''/etc/app/config.yml'',
       argsparse := (\<lambda>s. [(''_'', Arr [Str ''gomplate'']), (''f'', Num 0)])\<rparr>) ''gomplate -f 0'') ''f''
     = Num 0 \<and>
   getConfig (world0\<lparr>ENV_CONFIG_TEMPLATE_ARGS := Some ''gomplate -f 0'',
       process_env_CONFIG_PATH := Some ''/etc/app/config.yml'',
       argsparse := (\<lambda>s. [(''_'', Arr [Str ''gomplate'']), (''f'', Num 0)])\<rparr>)
     = (Inl (ReferenceError ''value is not defined''), []) \<and>
   getConfig (world0\<lparr>ENV_CONFIG_TEMPLATE_ARGS := Some ''gomplate -f 0'',
       process_env_CONFIG_PATH := Some ''/etc/app/config.yml'',
       argsparse := (\<lambda>s. [(''_'', Arr [Str ''gomplate'']), (''f'', Num 0)])\<rparr>)
     \<noteq> (Inl (Error (conflict_message ''gomplate -f 0'')), [])"
  by (simp add: getConfig_def getConfig_command_def)

text \<open>
  C1, amended. When \<^verbatim>\<open>ENV.CONFIG_TEMPLATE_ARGS\<close> and \<^verbatim>\<open>process.env.CONFIG_PATH\<close> are both set to
  a non-empty string and the value of the flag \<^verbatim>\<open>f\<close> in the parsed flags is truthy (what the
  guards of the source test), \<^verbatim>\<open>getConfig\<close> throws the conflict error, whose message names
  both \<^verbatim>\<open>CONFIG_PATH\<close> and \<^verbatim>\<open>CONFIG_TEMPLATE_ARGS\<close>, and it has read no file and executed no
  process (the list of I/O events is empty).
\<close>

theorem getConfig_conflict:
  assumes "ENV_CONFIG_TEMPLATE_ARGS w = Some s" and "s \<noteq> []"
    and "process_env_CONFIG_PATH w = Some p" and "p \<noteq> []"
    and "truthy (lookup (argsparse w s) ''f'')"
  shows "getConfig w = (Inl (Error (conflict_message s)), []) \<and>
         (\<exists>a b c. conflict_message s = a @ ''CONFIG_PATH'' @ b @ ''CONFIG_TEMPLATE_ARGS'' @ c)"
proof
  show "getConfig w = (Inl (Error (conflict_message s)), [])"
    using assms by (simp add: getConfig_def getConfig_command_def)
  have "conflict_message s = ''Use either '' @ ''CONFIG_PATH'' @ '' env or \"-f\" option of '' @
      ''CONFIG_TEMPLATE_ARGS'' @ ('' env ['' @ s @ ''] but not both'')"
    by (simp add: conflict_message_def)
  then show "\<exists>a b c. conflict_message s = a @ ''CONFIG_PATH'' @ b @ ''CONFIG_TEMPLATE_ARGS'' @ c"
    by blast
qed

theorem getConfig_conflict_witness:
  "getConfig (world0\<lparr>ENV_CONFIG_TEMPLATE_ARGS := Some ''gomplate -f in.yml'',
       process_env_CONFIG_PATH := Some ''/etc/app/config.yml'',
       argsparse := (\<lambda>s. [(''_'', Arr [Str ''gomplate'']), (''f'', Str ''in.yml'')])\<rparr>)
   = (Inl (Error (conflict_message ''gomplate -f in.yml'')), [])"
  using getConfig_conflict [of "world0\<lparr>ENV_CONFIG_TEMPLATE_ARGS := Some ''gomplate -f in.yml'',
       process_env_CONFIG_PATH := Some ''/etc/app/config.yml'',
       argsparse := (\<lambda>s. [(''_'', Arr [Str ''gomplate'']), (''f'', Str ''in.yml'')])\<rparr>"
       "''gomplate -f in.yml''" "''/etc/app/config.yml''"]
  by simp

text \<open>
  C2. The claim expects the value of \<^verbatim>\<open>CONFIG_PATH\<close> to be injected as the flag \<^verbatim>\<open>f\<close> when the
  parsed flags hold none. The source writes \<^verbatim>\<open>args.f = value.CONFIG_PATH\<close>, and \<^verbatim>\<open>value\<close> is
  not defined: on the input below (\<^verbatim>\<open>CONFIG_TEMPLATE_ARGS="gomplate -t tmpl.tpl"\<close>,
  \<^verbatim>\<open>CONFIG_PATH="/etc/app/config.yml"\<close>) \<^verbatim>\<open>getConfig\<close> fails with a \<open>ReferenceError\<close> and
  executes nothing.
\<close>

theorem getConfig_inject_ReferenceError:
  "getConfig (world0\<lparr>ENV_CONFIG_TEMPLATE_ARGS := Some ''gomplate -t tmpl.tpl'',
       process_env_CONFIG_PATH := Some ''/etc/app/config.yml'',
       argsparse := (\<lambda>s. [(''_'', Arr [Str ''gomplate'']), (''t'', Str ''tmpl.tpl'')])\<rparr>)
   = (Inl (ReferenceError ''value is not defined''), [])"
  by (rule getConfig_inject_throws [where s = "''gomplate -t tmpl.tpl''"]) simp_all

text \<open>
  C3. In file mode (\<^verbatim>\<open>ENV.CONFIG_TEMPLATE_ARGS\<close> falsy), with \<open>curPath\<close> the join of the
  directory and the name of \<^verbatim>\<open>ENV.CONFIG_PATH\<close>: whether the read of \<^verbatim>\<open>curPath.yaml\<close> succeeds
  or fails with the code \<^verbatim>\<open>ENOENT\<close>, the result is the content of \<^verbatim>\<open>curPath.yml\<close> (what was
  read from the \<^verbatim>\<open>.yaml\<close> file is dropped) with \<open>configDeps = [curPath]\<close>; any other failure
  of the \<^verbatim>\<open>.yaml\<close> read is thrown, and the \<^verbatim>\<open>.yml\<close> file is then not read.
\<close>

theorem getConfig_file_mode:
  assumes "\<not> env_truthy (ENV_CONFIG_TEMPLATE_ARGS w)"
    and "curPath = path_join w (fst (path_parse w (ENV_CONFIG_PATH w)))
                              (snd (path_parse w (ENV_CONFIG_PATH w)))"
  shows
    "(\<forall>y c. readFile w (curPath @ ''.yaml'') = Inr y \<longrightarrow> readFile w (curPath @ ''.yml'') = Inr c \<longrightarrow>
        getConfig w = (Inr \<lparr>config = c, configDeps = [Str curPath]\<rparr>,
                       [ReadFile (curPath @ ''.yaml''), ReadFile (curPath @ ''.yml'')])) \<and>
     (\<forall>e c. readFile w (curPath @ ''.yaml'') = Inl e \<longrightarrow> err_code e = Some ''ENOENT'' \<longrightarrow>
        readFile w (curPath @ ''.yml'') = Inr c \<longrightarrow>
        getConfig w = (Inr \<lparr>config = c, configDeps = [Str curPath]\<rparr>,
                       [ReadFile (curPath @ ''.yaml''), ReadFile (curPath @ ''.yml'')])) \<and>
     (\<forall>e. readFile w (curPath @ ''.yaml'') = Inl e \<longrightarrow> err_code e \<noteq> Some ''ENOENT'' \<longrightarrow>
        getConfig w = (Inl e, [ReadFile (curPath @ ''.yaml'')]))"
proof -
  have fm: "getConfig w = getConfig_file w"
    using assms(1) by (cases "ENV_CONFIG_TEMPLATE_ARGS w") (simp_all add: getConfig_def)
  show ?thesis
    unfolding fm getConfig_file_def Let_def assms(2) [symmetric]
    by (auto split: sum.splits)
qed

theorem getConfig_file_mode_witness:
  "getConfig (world0\<lparr>readFile := (\<lambda>p. if p = ''/etc/app/config.yaml'' then Inr ''watch: true''
                                     else if p = ''/etc/app/config.yml'' then Inr ''watch: false''
                                     else Inl (SystemError ''ENOENT'' ''no such file''))\<rparr>)
     = (Inr \<lparr>config = ''watch: false'', configDeps = [Str ''/etc/app/config'']\<rparr>,
        [ReadFile ''/etc/app/config.yaml'', ReadFile ''/etc/app/config.yml'']) \<and>
   getConfig (world0\<lparr>readFile := (\<lambda>p. if p = ''/etc/app/config.yml'' then Inr ''watch: false''
                                     else Inl (SystemError ''ENOENT'' ''no such file''))\<rparr>)
     = (Inr \<lparr>config = ''watch: false'', configDeps = [Str ''/etc/app/config'']\<rparr>,
        [ReadFile ''/etc/app/config.yaml'', ReadFile ''/etc/app/config.yml'']) \<and>
   getConfig (world0\<lparr>readFile := (\<lambda>p. if p = ''/etc/app/config.yml'' then Inr ''watch: false''
                                     else Inl (SystemError ''EACCES'' ''permission denied''))\<rparr>)
     = (Inl (SystemError ''EACCES'' ''permission denied''), [ReadFile ''/etc/app/config.yaml''])"
  using
    getConfig_file_mode [of "world0\<lparr>readFile := (\<lambda>p. if p = ''/etc/app/config.yaml'' then Inr ''watch: true''
                                     else if p = ''/etc/app/config.yml'' then Inr ''watch: false''
                                     else Inl (SystemError ''ENOENT'' ''no such file''))\<rparr>" "''/etc/app/config''"]
    getConfig_file_mode [of "world0\<lparr>readFile := (\<lambda>p. if p = ''/etc/app/config.yml'' then Inr ''watch: false''
                                     else Inl (SystemError ''ENOENT'' ''no such file''))\<rparr>" "''/etc/app/config''"]
    getConfig_file_mode [of "world0\<lparr>readFile := (\<lambda>p. if p = ''/etc/app/config.yml'' then Inr ''watch: false''
                                     else Inl (SystemError ''EACCES'' ''permission denied''))\<rparr>" "''/etc/app/config''"]
  by (simp add: world0_def path_parse_basic_def path_join_basic_def)

text \<open>
  C4. For the flags \<^verbatim>\<open>{t: "tmpl.tpl", d: ["alias=file:///data/x.json",
  "alias2=https://example.com/y"]}\<close> the reducer collects exactly the dependencies
  \<^verbatim>\<open>tmpl.tpl\<close> and \<^verbatim>\<open>/data/x.json\<close>, for every \<open>URL\<close> constructor that reads the two URLs as
  the WHATWG standard does. In general \<^verbatim>\<open>t\<close> and \<^verbatim>\<open>f\<close> give their value itself, and \<^verbatim>\<open>d\<close>
  gives the path name of the URL after the first \<^verbatim>\<open>=\<close> when its protocol starts with
  \<^verbatim>\<open>file\<close>, and nothing (\<^verbatim>\<open>null\<close>) otherwise.
\<close>

theorem dependency_extraction:
  assumes "URL w ''file:///data/x.json'' = Inr \<lparr>protocol = ''file:'', pathname = ''/data/x.json''\<rparr>"
    and "URL w ''https://example.com/y'' = Inr \<lparr>protocol = ''https:'', pathname = ''/y''\<rparr>"
  shows
    "reduce_args w ([], [])
       [(''t'', Str ''tmpl.tpl''),
        (''d'', Arr [Str ''alias=file:///data/x.json'', Str ''alias2=https://example.com/y''])]
     = Inr ([Str ''-t'', Str ''tmpl.tpl'', Str ''-d'', Str ''alias=file:///data/x.json'',
             Str ''-d'', Str ''alias2=https://example.com/y''],
            [Str ''tmpl.tpl'', Str ''/data/x.json'']) \<and>
     getPathFromArg w ''t'' v = Inr v \<and> getPathFromArg w ''f'' v = Inr v \<and>
     (\<forall>a b u. CHR ''='' \<notin> set a \<longrightarrow> URL w b = Inr u \<longrightarrow>
        getPathFromArg w ''d'' (Str (a @ CHR ''='' # b)) =
          Inr (if startsWith (protocol u) ''file'' then Str (pathname u) else Null))"
proof -
  have d1: "getPathFromArg w ''d'' (Str ''alias=file:///data/x.json'') = Inr (Str ''/data/x.json'')"
    by (simp add: getPathFromArg_def substring_def assms(1) startsWith_def)
  have d2: "getPathFromArg w ''d'' (Str ''alias2=https://example.com/y'') = Inr Null"
    by (simp add: getPathFromArg_def substring_def assms(2) startsWith_def)
  have t: "\<And>v. getPathFromArg w ''t'' v = Inr v" "\<And>v. getPathFromArg w ''f'' v = Inr v"
    by (simp_all add: getPathFromArg_def)
  have "reduce_args w ([], [])
       [(''t'', Str ''tmpl.tpl''),
        (''d'', Arr [Str ''alias=file:///data/x.json'', Str ''alias2=https://example.com/y''])]
     = Inr ([Str ''-t'', Str ''tmpl.tpl'', Str ''-d'', Str ''alias=file:///data/x.json'',
             Str ''-d'', Str ''alias2=https://example.com/y''],
            [Str ''tmpl.tpl'', Str ''/data/x.json''])"
    by (simp add: push_arg_def t d1 d2 set_add_def)
  moreover have "\<forall>a b u. CHR ''='' \<notin> set a \<longrightarrow> URL w b = Inr u \<longrightarrow>
        getPathFromArg w ''d'' (Str (a @ CHR ''='' # b)) =
          Inr (if startsWith (protocol u) ''file'' then Str (pathname u) else Null)"
    by (simp add: getPathFromArg_def substring_after_first)
  ultimately show ?thesis using t by simp
qed

theorem dependency_extraction_witness:
  "set (snd (projr (reduce_args world0 ([], [])
       [(''t'', Str ''tmpl.tpl''),
        (''d'', Arr [Str ''alias=file:///data/x.json'', Str ''alias2=https://example.com/y''])])))
   = {Str ''tmpl.tpl'', Str ''/data/x.json''}"
proof -
  have u1: "URL world0 ''file:///data/x.json'' = Inr \<lparr>protocol = ''file:'', pathname = ''/data/x.json''\<rparr>"
    by (simp add: world0_def URL_basic_def startsWith_def)
  have u2: "URL world0 ''https://example.com/y'' = Inr \<lparr>protocol = ''https:'', pathname = ''/y''\<rparr>"
    by (simp add: world0_def URL_basic_def startsWith_def)
  show ?thesis using dependency_extraction [OF u1 u2] by simp
qed

text \<open>
  C5 as stated fails: with no positional token and the flag \<^verbatim>\<open>-t tmpl.tpl\<close>,
  \<^verbatim>\<open>getConfig\<close> does not detect the missing command; it calls \<^verbatim>\<open>execFile\<close> with the command
  \<^verbatim>\<open>undefined\<close>, and the failure is the one of that call.
\<close>

theorem getConfig_no_positional_counterexample:
  "lookup (argsparse (world0\<lparr>ENV_CONFIG_TEMPLATE_ARGS := Some ''-t tmpl.tpl'',
       argsparse := (\<lambda>s. [(''_'', Arr []), (''t'', Str ''tmpl.tpl'')])\<rparr>) ''-t tmpl.tpl'') ''_'' = Arr [] \<and>
   getConfig (world0\<lparr>ENV_CONFIG_TEMPLATE_ARGS := Some ''-t tmpl.tpl'',
       argsparse := (\<lambda>s. [(''_'', Arr []), (''t'', Str ''tmpl.tpl'')])\<rparr>)
   = (Inl (TypeError ''The file argument must be of type string''),
      [ExecFile Undefined [Str ''-t'', Str ''tmpl.tpl'']])"
  by (simp add: getConfig_def getConfig_command_def world0_def delete_prop_def push_arg_def
      getPathFromArg_def set_add_def)

text \<open>
  C5, amended. In command mode with \<^verbatim>\<open>process.env.CONFIG_PATH\<close> unset and no positional
  token: when the rebuilt argument vector is empty, \<^verbatim>\<open>getConfig\<close> fails with the error
  "CONFIG_TEMPLATE_ARGS env requires at least one argument" before any execution; when
  it is not empty, \<^verbatim>\<open>getConfig\<close> calls \<^verbatim>\<open>execFile\<close> with the command \<^verbatim>\<open>undefined\<close> and that
  vector, and returns or fails as that call does.
\<close>

theorem getConfig_no_positional:
  assumes "ENV_CONFIG_TEMPLATE_ARGS w = Some s" and "s \<noteq> []"
    and "\<not> env_truthy (process_env_CONFIG_PATH w)"
    and "lookup (argsparse w s) ''_'' = Arr []"
  shows
    "(\<forall>deps. reduce_args w ([], []) (delete_prop (argsparse w s) ''_'') = Inr ([], deps) \<longrightarrow>
        getConfig w = (Inl (Error ''CONFIG_TEMPLATE_ARGS env requires at least one argument''), [])) \<and>
     (\<forall>cmdArgs deps. reduce_args w ([], []) (delete_prop (argsparse w s) ''_'') = Inr (cmdArgs, deps) \<longrightarrow>
        cmdArgs \<noteq> [] \<longrightarrow>
        getConfig w =
          (case execFile w Undefined cmdArgs of
             Inl e \<Rightarrow> Inl e
           | Inr stdout \<Rightarrow> Inr \<lparr>config = stdout, configDeps = deps\<rparr>,
           [ExecFile Undefined cmdArgs]))"
  using assms by (auto simp: getConfig_def getConfig_command_def split: sum.splits)

theorem getConfig_no_positional_witness:
  "getConfig (world0\<lparr>ENV_CONFIG_TEMPLATE_ARGS := Some ''-t tmpl.tpl'',
       argsparse := (\<lambda>s. [(''_'', Arr []), (''t'', Str ''tmpl.tpl'')])\<rparr>)
   = (Inl (TypeError ''The file argument must be of type string''),
      [ExecFile Undefined [Str ''-t'', Str ''tmpl.tpl'']]) \<and>
   getConfig (world0\<lparr>ENV_CONFIG_TEMPLATE_ARGS := Some ''--'',
       argsparse := (\<lambda>s. [(''_'', Arr [])])\<rparr>)
   = (Inl (Error ''CONFIG_TEMPLATE_ARGS env requires at least one argument''), [])"
  using getConfig_no_positional [of "world0\<lparr>ENV_CONFIG_TEMPLATE_ARGS := Some ''-t tmpl.tpl'',
       argsparse := (\<lambda>s. [(''_'', Arr []), (''t'', Str ''tmpl.tpl'')])\<rparr>" "''-t tmpl.tpl''"]
    getConfig_no_positional [of "world0\<lparr>ENV_CONFIG_TEMPLATE_ARGS := Some ''--'',
       argsparse := (\<lambda>s. [(''_'', Arr [])])\<rparr>" "''--''"]
  by (simp add: world0_def delete_prop_def push_arg_def getPathFromArg_def set_add_def)

section \<open>Properties of the validation\<close>

lemma lookup_assign: "lookup (assign kvs k v) k' = (if k' = k then v else lookup kvs k')"
  by (induction kvs) auto

lemma lookup_filter: "P k \<Longrightarrow> lookup (filter (\<lambda>kv. P (fst kv)) kvs) k = lookup kvs k"
  by (induction kvs) auto

lemma any_check_defined: "v \<noteq> Undefined \<Longrightarrow> any_check req d base p v = base p v"
  by (simp add: any_check_def)

lemma any_check_total: "(\<And>q x. \<exists>r. base q x = Inr r) \<Longrightarrow> \<exists>r. any_check req d base p v = Inr r"
  by (simp add: any_check_def)

lemma string_base_total: "\<exists>r. string_base U tests p v = Inr r"
  by (cases v) (simp_all add: string_base_def)

lemma boolean_base_total: "\<exists>r. boolean_base p v = Inr r"
  by (cases v) (auto simp: boolean_base_def)

lemma tokens_acc_plain:
  "CHR ''['' \<notin> set s \<Longrightarrow> tokens_acc acc s = flush (acc @ s)"
  by (induction s arbitrary: acc) auto

lemma alnum_no_bracket: "list_all alnum s \<Longrightarrow> CHR ''['' \<notin> set s"
proof
  assume a: "list_all alnum s" and b: "CHR ''['' \<in> set s"
  then have "alnum CHR ''[''" by (auto simp: list_all_iff)
  then show False by (simp add: alnum_def)
qed

lemma template_alnum:
  "list_all alnum s \<Longrightarrow> template_tokens s = flush s"
  by (simp add: template_tokens_def tokens_acc_plain alnum_no_bracket)


subsection \<open>Objects\<close>

lemma check_keys_total:
  "(\<And>k s q x. (k, s) \<in> set cs \<Longrightarrow> \<exists>r. s q x = Inr r) \<Longrightarrow> \<exists>r. check_keys cs p t = Inr r"
proof (induction cs arbitrary: t)
  case Nil
  then show ?case by simp
next
  case (Cons c cs)
  obtain k s where c: "c = (k, s)" by (cases c)
  obtain e v' where h: "s (p @ [Key k]) (lookup t k) = Inr (e, v')"
    using Cons.prems [of k s] c by fastforce
  obtain r where "check_keys cs p (if e = [] \<and> v' \<noteq> Undefined then assign t k v' else t) = Inr r"
    using Cons.IH Cons.prems by (meson list.set_intros(2))
  then show ?case using c h by (cases r) simp
qed

lemma check_keys_untouched:
  "check_keys cs p t = Inr (errs, t') \<Longrightarrow> k \<notin> fst ` set cs \<Longrightarrow> lookup t' k = lookup t k"
proof (induction cs arbitrary: t errs)
  case Nil
  then show ?case by simp
next
  case (Cons c cs)
  obtain k0 s0 where c: "c = (k0, s0)" by (cases c)
  from Cons.prems(1) c obtain e v' errs' where
    h: "s0 (p @ [Key k0]) (lookup t k0) = Inr (e, v')"
    and r: "check_keys cs p (if e = [] \<and> v' \<noteq> Undefined then assign t k0 v' else t) = Inr (errs', t')"
    by (auto split: sum.splits prod.splits)
  have "k \<noteq> k0" "k \<notin> fst ` set cs" using Cons.prems(2) c by auto
  then show ?case using Cons.IH [OF r] by (simp add: lookup_assign)
qed

lemma check_keys_child:
  assumes "check_keys cs p t = Inr (errs, t')" and "(k, s) \<in> set cs" and "distinct (map fst cs)"
  shows "\<exists>e v'. s (p @ [Key k]) (lookup t k) = Inr (e, v') \<and> set e \<subseteq> set errs \<and>
           lookup t' k = (if e = [] \<and> v' \<noteq> Undefined then v' else lookup t k)"
  using assms
proof (induction cs arbitrary: t errs)
  case Nil
  then show ?case by simp
next
  case (Cons c cs)
  obtain k0 s0 where c: "c = (k0, s0)" by (cases c)
  from Cons.prems(1) c obtain e v' errs' where
    h: "s0 (p @ [Key k0]) (lookup t k0) = Inr (e, v')"
    and r: "check_keys cs p (if e = [] \<and> v' \<noteq> Undefined then assign t k0 v' else t) = Inr (errs', t')"
    and errs: "errs = e @ errs'"
    by (auto split: sum.splits prod.splits)
  show ?case
  proof (cases "(k, s) = (k0, s0)")
    case True
    have "k0 \<notin> fst ` set cs" using Cons.prems(3) c by auto
    then have "lookup t' k0 = lookup (if e = [] \<and> v' \<noteq> Undefined then assign t k0 v' else t) k0"
      using check_keys_untouched [OF r] by blast
    then have "lookup t' k = (if e = [] \<and> v' \<noteq> Undefined then v' else lookup t k)"
      using True by (simp add: lookup_assign)
    moreover have "s (p @ [Key k]) (lookup t k) = Inr (e, v')" using True h by simp
    moreover have "set e \<subseteq> set errs" using errs by simp
    ultimately show ?thesis by blast
  next
    case False
    then have mem: "(k, s) \<in> set cs" using Cons.prems(2) c by auto
    have d: "distinct (map fst cs)" using Cons.prems(3) by simp
    have "k \<in> fst ` set cs" using mem by force
    then have "k \<noteq> k0" using Cons.prems(3) c by auto
    then have l: "lookup (if e = [] \<and> v' \<noteq> Undefined then assign t k0 v' else t) k = lookup t k"
      by (simp add: lookup_assign)
    from Cons.IH [OF r mem d] obtain e1 v1 where
      "s (p @ [Key k]) (lookup t k) = Inr (e1, v1)" "set e1 \<subseteq> set errs'"
      "lookup t' k = (if e1 = [] \<and> v1 \<noteq> Undefined then v1 else lookup t k)"
      unfolding l by blast
    moreover have "set errs' \<subseteq> set errs" using errs by simp
    ultimately show ?thesis by blast
  qed
qed

lemma object_base_total:
  "(\<And>k s q x. (k, s) \<in> set cs \<Longrightarrow> \<exists>r. s q x = Inr r) \<Longrightarrow> \<exists>r. object_base J cs p v = Inr r"
proof -
  assume a: "\<And>k s q x. (k, s) \<in> set cs \<Longrightarrow> \<exists>r. s q x = Inr r"
  show ?thesis
  proof (cases "object_safeParse J v")
    case (Obj kvs)
    obtain r where "check_keys cs p kvs = Inr r" using check_keys_total [of cs p kvs] a by blast
    then show ?thesis using Obj by (cases r) (simp add: object_base_def)
  qed (simp_all add: object_base_def)
qed

lemma object_base_child:
  assumes "object_base J cs p v = Inr (errs, v')" and "(k, s) \<in> set cs" and "distinct (map fst cs)"
    and "object_safeParse J v = Obj kvs"
  shows "\<exists>e x' t'. s (p @ [Key k]) (lookup kvs k) = Inr (e, x') \<and> set e \<subseteq> set errs \<and> v' = Obj t' \<and>
           fst ` set t' \<subseteq> fst ` set cs \<and>
           lookup t' k = (if e = [] \<and> x' \<noteq> Undefined then x' else lookup kvs k)"
proof -
  from assms(1,4) obtain t where ck: "check_keys cs p kvs = Inr (errs, t)"
    and v': "v' = Obj (filter (\<lambda>kv. fst kv \<in> fst ` set cs) t)"
    by (auto simp: object_base_def split: sum.splits prod.splits)
  from check_keys_child [OF ck assms(2,3)] obtain e x' where
    h: "s (p @ [Key k]) (lookup kvs k) = Inr (e, x')" "set e \<subseteq> set errs"
       "lookup t k = (if e = [] \<and> x' \<noteq> Undefined then x' else lookup kvs k)"
    by blast
  have kin: "k \<in> fst ` set cs" using assms(2) by force
  have "lookup (filter (\<lambda>kv. fst kv \<in> fst ` set cs) t) k = lookup t k"
    using lookup_filter [of "\<lambda>k. k \<in> fst ` set cs" k t] kin by simp
  moreover have "set (map fst (filter (\<lambda>kv. fst kv \<in> fst ` set cs) t)) \<subseteq> fst ` set cs"
    by auto
  ultimately show ?thesis using h v' by auto
qed

lemma object_base_not_object:
  "\<forall>kvs. object_safeParse J v \<noteq> Obj kvs \<Longrightarrow> object_base J cs p v = Inr ([(p, ''object.base'')], v)"
  by (cases "object_safeParse J v") (simp_all add: object_base_def)

lemma object_base_accepts:
  "object_base J cs p v = Inr ([], v') \<Longrightarrow> \<exists>kvs. object_safeParse J v = Obj kvs"
  by (cases "object_safeParse J v") (simp_all add: object_base_def)

lemma safeParse_not_string: "\<forall>s. v \<noteq> Str s \<Longrightarrow> safeParse J v = None"
  by (cases v) (simp_all add: safeParse_def)

lemma safeParse_empty: "safeParse J (Str []) = None"
  by (simp add: safeParse_def)

lemma object_safeParse_id: "(\<forall>s. v \<noteq> Str s) \<or> v = Str [] \<Longrightarrow> object_safeParse J v = v"
  by (auto simp: object_safeParse_def safeParse_not_string safeParse_empty)

lemma array_safeParse_id: "(\<forall>s. v \<noteq> Str s) \<or> v = Str [] \<Longrightarrow> array_safeParse J v = v"
  by (auto simp: array_safeParse_def safeParse_not_string safeParse_empty)

subsection \<open>Alternatives\<close>

lemma try_alternatives_total:
  "(\<And>s q x. s \<in> set ss \<Longrightarrow> \<exists>r. s q x = Inr r) \<Longrightarrow> \<exists>r. try_alternatives ss errors p v = Inr r"
proof (induction ss arbitrary: errors)
  case Nil
  then show ?case by simp
next
  case (Cons s ss)
  obtain e v' where "s p v = Inr (e, v')" using Cons.prems [of s] by fastforce
  moreover have "\<exists>r. try_alternatives ss (errors @ e) p v = Inr r"
    using Cons.IH Cons.prems by (meson list.set_intros(2))
  ultimately show ?case by auto
qed

subsection \<open>Arrays\<close>

lemma check_items_total:
  "(\<And>s q x. incl = Some s \<Longrightarrow> \<exists>r. s q x = Inr r) \<Longrightarrow> \<exists>r. check_items incl wa p i xs = Inr r"
proof (induction xs arbitrary: i)
  case Nil
  then show ?case by simp
next
  case (Cons x xs)
  obtain errs' xs' where r: "check_items incl wa p (Suc i) xs = Inr (errs', xs')"
    using Cons by fastforce
  show ?case
  proof (cases incl)
    case None
    then show ?thesis using r by simp
  next
    case (Some s)
    obtain e x' where "s (item_path wa p i) x = Inr (e, x')" using Cons.prems [OF Some] by fastforce
    then show ?thesis using r Some by simp
  qed
qed

lemma check_items_ok:
  "check_items (Some s) wa p i xs = Inr ([], xs') \<Longrightarrow>
   list_all2 (\<lambda>x x'. x \<noteq> Undefined \<and> (\<exists>q. s q x = Inr ([], x'))) xs xs'"
proof (induction xs arbitrary: i xs')
  case Nil
  then show ?case by simp
next
  case (Cons x xs)
  then show ?case
    by (auto split: sum.splits prod.splits if_splits)
qed

lemma check_items_errs:
  "check_items (Some s) wa p i xs = Inr (errs, xs') \<Longrightarrow> n < length xs \<Longrightarrow> xs ! n \<noteq> Undefined \<Longrightarrow>
   \<exists>e x'. s (item_path wa p (i + n)) (xs ! n) = Inr (e, x') \<and> set e \<subseteq> set errs"
proof (induction xs arbitrary: i n errs xs')
  case Nil
  then show ?case by simp
next
  case (Cons x xs)
  show ?case
  proof (cases n)
    case 0
    then have "x \<noteq> Undefined" using Cons.prems(3) by simp
    then show ?thesis using Cons.prems(1) 0
      by (auto split: sum.splits prod.splits)
  next
    case (Suc m)
    from Cons.prems(1) obtain e errs' ys where
      r: "check_items (Some s) wa p (Suc i) xs = Inr (errs', ys)" and errs: "errs = e @ errs'"
      by (auto split: sum.splits prod.splits if_splits)
    have "m < length xs" "xs ! m \<noteq> Undefined" using Cons.prems Suc by auto
    from Cons.IH [OF r this] show ?thesis using Suc errs by auto
  qed
qed

subsection \<open>The comparator and the rule unique\<close>

lemma checkUniqueField_total:
  "a \<noteq> Undefined \<Longrightarrow> a \<noteq> Null \<Longrightarrow> b \<noteq> Undefined \<Longrightarrow> b \<noteq> Null \<Longrightarrow>
   \<exists>r. checkUniqueField field a b = Inr r"
  by (cases a; cases b) (auto simp: checkUniqueField_def)

lemma find_dupe_total:
  "(\<And>a. a \<in> set records \<Longrightarrow> \<exists>b. cmp a item = Inr b) \<Longrightarrow> \<exists>b. find_dupe cmp records item = Inr b"
proof (induction records)
  case Nil
  then show ?case by auto
next
  case (Cons r records)
  obtain b where "cmp r item = Inr b" using Cons.prems [of r] by auto
  moreover have "\<exists>b. find_dupe cmp records item = Inr b" using Cons by simp
  ultimately show ?case by auto
qed

lemma unique_scan_total:
  "(\<And>a b. a \<in> set records \<union> set xs \<Longrightarrow> b \<in> set xs \<Longrightarrow> \<exists>r. cmp a b = Inr r) \<Longrightarrow>
   \<exists>r. unique_scan cmp records i xs = Inr r"
proof (induction xs arbitrary: records i)
  case Nil
  then show ?case by auto
next
  case (Cons x xs)
  have "\<exists>b. find_dupe cmp records x = Inr b"
    using Cons.prems by (intro find_dupe_total) auto
  then obtain b where b: "find_dupe cmp records x = Inr b" by blast
  have "\<exists>r. unique_scan cmp (records @ [x]) (Suc i) xs = Inr r"
    using Cons.prems by (intro Cons.IH) auto
  then show ?case using b by auto
qed

subsection \<open>Arrays, continued\<close>

lemma array_base_min_total:
  assumes "\<And>s q x. incl = Some s \<Longrightarrow> \<exists>r. s q x = Inr r"
  shows "\<exists>r. array_base J incl sg [Min n] p v = Inr r"
proof -
  have t: "\<And>xs. \<exists>r. run_array_tests p xs [Min n] = Inr r"
    by (simp add: run_array_tests_def)
  have c: "\<And>wa xs. \<exists>e ys. check_items incl wa p 0 xs = Inr (e, ys)"
    using check_items_total [of incl _ p 0] assms by (metis surj_pair)
  show ?thesis
  proof (cases "case array_safeParse J v of Arr xs \<Rightarrow> Some (True, xs)
                | value \<Rightarrow> if sg then Some (False, [value]) else None")
    case None
    then show ?thesis by (simp add: array_base_def)
  next
    case (Some a)
    obtain wasArray xs where a: "a = (wasArray, xs)" by (cases a)
    obtain e ys where 1: "check_items incl wasArray p 0 xs = Inr (e, ys)" using c by blast
    obtain e2 zs where 2: "check_items incl wasArray p 0 [Arr ys] = Inr (e2, zs)" using c by blast
    obtain r1 where 3: "run_array_tests p ys [Min n] = Inr r1" using t by blast
    obtain r2 where 4: "run_array_tests p zs [Min n] = Inr r2" using t by blast
    show ?thesis
      unfolding array_base_def Some a using 1 2 3 4
      by (cases wasArray) (simp_all del: check_items.simps)
  qed
qed

lemma check_items_valid:
  "(\<And>x. x \<in> set xs \<Longrightarrow> x \<noteq> Undefined \<and> (\<forall>q. \<exists>x'. s q x = Inr ([], x'))) \<Longrightarrow>
   \<exists>xs'. check_items (Some s) wa p i xs = Inr ([], xs')"
proof (induction xs arbitrary: i)
  case Nil
  then show ?case by auto
next
  case (Cons x xs)
  obtain x' where "s (item_path wa p i) x = Inr ([], x')" "x \<noteq> Undefined"
    using Cons.prems [of x] by auto
  moreover obtain xs' where "check_items (Some s) wa p (Suc i) xs = Inr ([], xs')"
    using Cons by fastforce
  ultimately show ?case by simp
qed

lemma array_base_not_single:
  "array_base J incl False tests p v =
     (case array_safeParse J v of
        Arr xs \<Rightarrow>
          (case check_items incl True p 0 xs of
             Inl e \<Rightarrow> Inl e
           | Inr (errs, xs') \<Rightarrow> if errs = [] then run_array_tests p xs' tests else Inr (errs, Arr xs'))
      | _ \<Rightarrow> Inr ([(p, ''array.base'')], v))"
  by (cases "array_safeParse J v") (simp_all add: array_base_def split: sum.splits prod.splits)

subsection \<open>The schemas, unfolded one level\<close>

lemma validate_argsSchema:
  "validate w argsSchema = any_check False None (array_base (JSON_parse w) None False [Min 1])"
  by (simp add: argsSchema_def Joi_array_def)

lemma validate_onChangeCmdSchema:
  "validate w onChangeCmdSchema = any_check False None (array_base (JSON_parse w) None False [Min 1])"
  by (simp add: onChangeCmdSchema_def Joi_array_def)

lemma validate_onChangeSchema:
  "validate w onChangeSchema = any_check False None (try_alternatives
     [validate w onChangeCmdSchema,
      any_check False None (object_base (JSON_parse w)
        [(''command'', validate w onChangeCmdSchema),
         (''stdout'', any_check False (Some (Bool False)) boolean_base),
         (''stderr'', any_check False (Some (Bool True)) boolean_base)])] [])"
  by (simp add: onChangeSchema_def Joi_alternatives_try_def Joi_object_def Joi_boolean_def)

lemma validate_DataSourceSchema:
  "validate w DataSourceSchema = any_check False None (try_alternatives
     [any_check True None (string_base (is_uri w) []),
      any_check False None (object_base (JSON_parse w)
        [(''url'', any_check True None (string_base (is_uri w) [Uri])),
         (''alias'', any_check False None (string_base (is_uri w) [Alphanum])),
         (''on_change'', validate w onChangeSchema),
         (''args'', validate w argsSchema)])] [])"
  by (simp add: DataSourceSchema_def Joi_alternatives_try_def Joi_object_def Joi_string_def)

lemma validate_FileSchema:
  "validate w FileSchema = any_check False None (try_alternatives
     [any_check True None (string_base (is_uri w) []),
      any_check False None (object_base (JSON_parse w)
        [(''left_delimiter'', any_check False None (string_base (is_uri w) [])),
         (''right_delimiter'', any_check False None (string_base (is_uri w) [])),
         (''input_path'', any_check True None (string_base (is_uri w) [])),
         (''output_path'', any_check False None (string_base (is_uri w) [])),
         (''on_change'', validate w onChangeSchema),
         (''args'', validate w argsSchema)])] [])"
  by (simp add: FileSchema_def Joi_alternatives_try_def Joi_object_def Joi_string_def)

lemma validate_FilePathSchema:
  "validate w FilePathSchema = any_check False None (try_alternatives
     [any_check True None (string_base (is_uri w) []),
      any_check False None (object_base (JSON_parse w)
        [(''path'', any_check True None (string_base (is_uri w) [])),
         (''on_change'', validate w onChangeSchema),
         (''args'', validate w argsSchema)])] [])"
  by (simp add: FilePathSchema_def Joi_alternatives_try_def Joi_object_def Joi_string_def)

lemma validate_ConfigItemSchema:
  "validate w ConfigItemSchema = any_check False None (object_base (JSON_parse w)
     [(''watch'', any_check False (Some (Bool False)) boolean_base),
      (''dependencies'', any_check False (Some (Arr []))
         (array_base (JSON_parse w) (Some (validate w FilePathSchema)) False [Unique (checkUniqueField ''path'')])),
      (''templates'', any_check False (Some (Arr []))
         (array_base (JSON_parse w) (Some (validate w FilePathSchema)) False [Unique (checkUniqueField ''path'')])),
      (''datasources'', any_check False (Some (Arr []))
         (array_base (JSON_parse w) (Some (validate w DataSourceSchema)) False [Unique (checkUniqueField ''url'')])),
      (''files'', any_check False (Some (Arr []))
         (array_base (JSON_parse w) (Some (validate w FileSchema)) False [Unique (checkUniqueField ''input_path'')])),
      (''on_change'', validate w onChangeSchema),
      (''args'', validate w argsSchema)])"
  by (simp add: ConfigItemSchema_def Joi_object_def Joi_boolean_def Joi_array_def)

lemma validate_ConfigSchema:
  "validate w ConfigSchema =
     any_check False None (array_base (JSON_parse w) (Some (validate w ConfigItemSchema)) True [Min 1])"
  by (simp add: ConfigSchema_def Joi_array_def)

subsection \<open>A string or an object: the shape of a valid item\<close>

lemma shorthand_or_object:
  assumes "any_check req d (try_alternatives
             [any_check True None (string_base U []), any_check False None (object_base J cs)] []) q x
           = Inr ([], x')"
    and "x \<noteq> Undefined"
  shows "(\<exists>s. x = Str s \<and> x' = Str s \<and> s \<noteq> []) \<or>
         (\<exists>kvs. x = Obj kvs \<and> object_base J cs q x = Inr ([], x'))"
proof -
  have alt: "try_alternatives
             [any_check True None (string_base U []), any_check False None (object_base J cs)] [] q x
           = Inr ([], x')"
    using assms by (simp add: any_check_def)
  show ?thesis
  proof (cases x)
    case (Str s)
    show ?thesis
    proof (cases "s = []")
      case True
      then have "object_base J cs q x = Inr ([(q, ''object.base'')], x)"
        using Str by (intro object_base_not_object) (simp add: object_safeParse_id)
      then show ?thesis using alt Str True
        by (simp add: any_check_def string_base_def)
    next
      case False
      then show ?thesis using alt Str
        by (auto simp: any_check_def string_base_def)
    qed
  next
    case (Obj kvs)
    then show ?thesis using alt
      by (auto simp: any_check_def string_base_def split: if_splits sum.splits prod.splits)
  qed (use alt assms(2) in \<open>auto simp: any_check_def string_base_def object_base_def object_safeParse_id\<close>)
qed

lemma shorthand_or_object_total:
  assumes "\<And>k s q x. (k, s) \<in> set cs \<Longrightarrow> \<exists>r. s q x = Inr r"
  shows "\<exists>r. any_check req d (try_alternatives
             [any_check True None (string_base (is_uri w) []), any_check False None (object_base J cs)] []) q x
           = Inr r"
proof (rule any_check_total, rule try_alternatives_total)
  fix s q x
  assume "s \<in> set [any_check True None (string_base (is_uri w) []), any_check False None (object_base J cs)]"
  then consider "s = any_check True None (string_base (is_uri w) [])" | "s = any_check False None (object_base J cs)"
    by auto
  then show "\<exists>r. s q x = Inr r"
  proof cases
    case 1
    then show ?thesis using any_check_total [of "string_base (is_uri w) []"] string_base_total by blast
  next
    case 2
    have "\<And>q x. \<exists>r. object_base J cs q x = Inr r" using object_base_total assms by blast
    then show ?thesis using 2 any_check_total [of "object_base J cs"] by blast
  qed
qed

lemma argsSchema_total: "\<exists>r. validate w argsSchema q x = Inr r"
  unfolding validate_argsSchema
  by (rule any_check_total, rule array_base_min_total) simp

lemma onChangeCmdSchema_total: "\<exists>r. validate w onChangeCmdSchema q x = Inr r"
  unfolding validate_onChangeCmdSchema
  by (rule any_check_total, rule array_base_min_total) simp

lemma onChangeSchema_total: "\<exists>r. validate w onChangeSchema q x = Inr r"
  unfolding validate_onChangeSchema
proof (rule any_check_total, rule try_alternatives_total)
  fix s q x
  assume "s \<in> set [validate w onChangeCmdSchema,
      any_check False None (object_base (JSON_parse w)
        [(''command'', validate w onChangeCmdSchema),
         (''stdout'', any_check False (Some (Bool False)) boolean_base),
         (''stderr'', any_check False (Some (Bool True)) boolean_base)])]"
  then consider "s = validate w onChangeCmdSchema"
    | "s = any_check False None (object_base (JSON_parse w)
        [(''command'', validate w onChangeCmdSchema),
         (''stdout'', any_check False (Some (Bool False)) boolean_base),
         (''stderr'', any_check False (Some (Bool True)) boolean_base)])"
    by auto
  then show "\<exists>r. s q x = Inr r"
  proof cases
    case 1
    then show ?thesis using onChangeCmdSchema_total by simp
  next
    case 2
    have "\<exists>r. object_base (JSON_parse w)
        [(''command'', validate w onChangeCmdSchema),
         (''stdout'', any_check False (Some (Bool False)) boolean_base),
         (''stderr'', any_check False (Some (Bool True)) boolean_base)] q x = Inr r" for q x
    proof (rule object_base_total)
      fix k s q x
      assume "(k, s) \<in> set [(''command'', validate w onChangeCmdSchema),
         (''stdout'', any_check False (Some (Bool False)) boolean_base),
         (''stderr'', any_check False (Some (Bool True)) boolean_base)]"
      then consider "s = validate w onChangeCmdSchema"
        | "s = any_check False (Some (Bool False)) boolean_base"
        | "s = any_check False (Some (Bool True)) boolean_base" by auto
      then show "\<exists>r. s q x = Inr r"
        using onChangeCmdSchema_total any_check_total [of boolean_base] boolean_base_total
        by cases blast+
    qed
    then show ?thesis using 2 any_check_total by blast
  qed
qed

lemma string_any_total: "\<exists>r. any_check req d (string_base (is_uri w) tests) p v = Inr r"
  by (rule any_check_total) (rule string_base_total)

lemma boolean_any_total: "\<exists>r. any_check req d boolean_base p v = Inr r"
  by (rule any_check_total) (rule boolean_base_total)

lemma DataSourceSchema_total: "\<exists>r. validate w DataSourceSchema q x = Inr r"
  unfolding validate_DataSourceSchema
proof (rule shorthand_or_object_total)
  fix k s q x
  assume "(k, s) \<in> set [(''url'', any_check True None (string_base (is_uri w) [Uri])),
         (''alias'', any_check False None (string_base (is_uri w) [Alphanum])),
         (''on_change'', validate w onChangeSchema),
         (''args'', validate w argsSchema)]"
  then consider "s = any_check True None (string_base (is_uri w) [Uri])"
    | "s = any_check False None (string_base (is_uri w) [Alphanum])"
    | "s = validate w onChangeSchema" | "s = validate w argsSchema" by auto
  then show "\<exists>r. s q x = Inr r"
    using onChangeSchema_total argsSchema_total string_any_total by cases blast+
qed

lemma FileSchema_total: "\<exists>r. validate w FileSchema q x = Inr r"
  unfolding validate_FileSchema
proof (rule shorthand_or_object_total)
  fix k s q x
  assume "(k, s) \<in> set [(''left_delimiter'', any_check False None (string_base (is_uri w) [])),
         (''right_delimiter'', any_check False None (string_base (is_uri w) [])),
         (''input_path'', any_check True None (string_base (is_uri w) [])),
         (''output_path'', any_check False None (string_base (is_uri w) [])),
         (''on_change'', validate w onChangeSchema),
         (''args'', validate w argsSchema)]"
  then consider "s = any_check False None (string_base (is_uri w) [])"
    | "s = any_check True None (string_base (is_uri w) [])"
    | "s = validate w onChangeSchema" | "s = validate w argsSchema" by auto
  then show "\<exists>r. s q x = Inr r"
    using onChangeSchema_total argsSchema_total string_any_total by cases blast+
qed

lemma FilePathSchema_total: "\<exists>r. validate w FilePathSchema q x = Inr r"
  unfolding validate_FilePathSchema
proof (rule shorthand_or_object_total)
  fix k s q x
  assume "(k, s) \<in> set [(''path'', any_check True None (string_base (is_uri w) [])),
         (''on_change'', validate w onChangeSchema),
         (''args'', validate w argsSchema)]"
  then consider "s = any_check True None (string_base (is_uri w) [])"
    | "s = validate w onChangeSchema" | "s = validate w argsSchema" by auto
  then show "\<exists>r. s q x = Inr r"
    using onChangeSchema_total argsSchema_total string_any_total by cases blast+
qed

lemma object_base_ok_Obj: "object_base J cs q x = Inr ([], x') \<Longrightarrow> \<exists>t. x' = Obj t"
  by (cases "object_safeParse J x") (auto simp: object_base_def split: sum.splits prod.splits)

lemma valid_item_shape:
  assumes "any_check req d (try_alternatives
             [any_check True None (string_base (is_uri w) []), any_check False None (object_base J cs)] []) q x
           = Inr ([], x')"
    and "x \<noteq> Undefined"
  shows "x' \<noteq> Undefined \<and> x' \<noteq> Null"
  using shorthand_or_object [OF assms] object_base_ok_Obj by fastforce

lemma unique_array_total:
  assumes tot: "\<And>q x. \<exists>r. s q x = Inr r"
    and shape: "\<And>q x x'. s q x = Inr ([], x') \<Longrightarrow> x \<noteq> Undefined \<Longrightarrow> x' \<noteq> Undefined \<and> x' \<noteq> Null"
  shows "\<exists>r. array_base J (Some s) False [Unique (checkUniqueField field)] p v = Inr r"
proof (cases "array_safeParse J v")
  case (Arr xs)
  obtain e ys where c: "check_items (Some s) True p 0 xs = Inr (e, ys)"
    using check_items_total [of "Some s" True p 0 xs] tot by fastforce
  show ?thesis
  proof (cases "e = []")
    case True
    have la: "list_all2 (\<lambda>x x'. x \<noteq> Undefined \<and> (\<exists>q. s q x = Inr ([], x'))) xs ys"
      using check_items_ok c True by blast
    have ok: "y \<noteq> Undefined \<and> y \<noteq> Null" if "y \<in> set ys" for y
    proof -
      from that obtain i where i: "i < length ys" "ys ! i = y" by (auto simp: in_set_conv_nth)
      from list_all2_nthD2 [OF la i(1)] obtain q where
        "xs ! i \<noteq> Undefined" "s q (xs ! i) = Inr ([], ys ! i)" by blast
      then show ?thesis using shape i(2) by blast
    qed
    have cmp: "\<exists>r. checkUniqueField field a b = Inr r" if "a \<in> set [] \<union> set ys" "b \<in> set ys" for a b
      using that ok checkUniqueField_total by simp
    have "\<exists>r. unique_scan (checkUniqueField field) [] 0 ys = Inr r"
      using unique_scan_total [of "[]" ys "checkUniqueField field" 0] cmp by blast
    then obtain r where "unique_scan (checkUniqueField field) [] 0 ys = Inr r" by blast
    then show ?thesis using Arr c True
      by (cases r) (simp_all add: array_base_not_single run_array_tests_def)
  next
    case False
    then show ?thesis using Arr c by (simp add: array_base_not_single)
  qed
qed (simp_all add: array_base_not_single)

lemma ConfigItemSchema_total: "\<exists>r. validate w ConfigItemSchema q x = Inr r"
  unfolding validate_ConfigItemSchema
proof (rule any_check_total, rule object_base_total)
  fix k s q x
  assume "(k, s) \<in> set [(''watch'', any_check False (Some (Bool False)) boolean_base),
      (''dependencies'', any_check False (Some (Arr []))
         (array_base (JSON_parse w) (Some (validate w FilePathSchema)) False [Unique (checkUniqueField ''path'')])),
      (''templates'', any_check False (Some (Arr []))
         (array_base (JSON_parse w) (Some (validate w FilePathSchema)) False [Unique (checkUniqueField ''path'')])),
      (''datasources'', any_check False (Some (Arr []))
         (array_base (JSON_parse w) (Some (validate w DataSourceSchema)) False [Unique (checkUniqueField ''url'')])),
      (''files'', any_check False (Some (Arr []))
         (array_base (JSON_parse w) (Some (validate w FileSchema)) False [Unique (checkUniqueField ''input_path'')])),
      (''on_change'', validate w onChangeSchema),
      (''args'', validate w argsSchema)]"
  then consider "s = any_check False (Some (Bool False)) boolean_base"
    | "s = any_check False (Some (Arr []))
         (array_base (JSON_parse w) (Some (validate w FilePathSchema)) False [Unique (checkUniqueField ''path'')])"
    | "s = any_check False (Some (Arr []))
         (array_base (JSON_parse w) (Some (validate w DataSourceSchema)) False [Unique (checkUniqueField ''url'')])"
    | "s = any_check False (Some (Arr []))
         (array_base (JSON_parse w) (Some (validate w FileSchema)) False [Unique (checkUniqueField ''input_path'')])"
    | "s = validate w onChangeSchema" | "s = validate w argsSchema" by auto
  then show "\<exists>r. s q x = Inr r"
  proof cases
    case 1
    then show ?thesis using boolean_any_total by blast
  next
    case 2
    have "\<exists>r. array_base (JSON_parse w) (Some (validate w FilePathSchema)) False [Unique (checkUniqueField ''path'')] q x = Inr r"
      for q x
      by (rule unique_array_total [OF FilePathSchema_total])
         (use valid_item_shape in \<open>simp add: validate_FilePathSchema\<close>)
    then show ?thesis using 2 any_check_total by blast
  next
    case 3
    have "\<exists>r. array_base (JSON_parse w) (Some (validate w DataSourceSchema)) False [Unique (checkUniqueField ''url'')] q x = Inr r"
      for q x
      by (rule unique_array_total [OF DataSourceSchema_total])
         (use valid_item_shape in \<open>simp add: validate_DataSourceSchema\<close>)
    then show ?thesis using 3 any_check_total by blast
  next
    case 4
    have "\<exists>r. array_base (JSON_parse w) (Some (validate w FileSchema)) False [Unique (checkUniqueField ''input_path'')] q x = Inr r"
      for q x
      by (rule unique_array_total [OF FileSchema_total])
         (use valid_item_shape in \<open>simp add: validate_FileSchema\<close>)
    then show ?thesis using 4 any_check_total by blast
  next
    case 5
    then show ?thesis using onChangeSchema_total by simp
  next
    case 6
    then show ?thesis using argsSchema_total by simp
  qed
qed

lemma string_base_value: "string_base (is_uri w) tests p v = Inr (e, x') \<Longrightarrow> x' = v"
  by (cases v) (auto simp: string_base_def split: if_splits)

lemma DataSourceSchema_output:
  assumes "validate w DataSourceSchema q d = Inr ([], d')" and "d \<noteq> Undefined"
  shows "(\<exists>s. d = Str s \<and> d' = Str s \<and> s \<noteq> []) \<or>
         (\<exists>kvs kvs'. d = Obj kvs \<and> d' = Obj kvs' \<and> lookup kvs' ''url'' = lookup kvs ''url'' \<and>
            lookup kvs' ''alias'' = lookup kvs ''alias'' \<and>
            (\<exists>a. any_check False None (string_base (is_uri w) [Alphanum]) (q @ [Key ''alias'']) (lookup kvs ''alias'') = Inr ([], a)) \<and>
            fst ` set kvs' \<subseteq> {''url'', ''alias'', ''on_change'', ''args''})"
proof -
  let ?cs = "[(''url'', any_check True None (string_base (is_uri w) [Uri])),
         (''alias'', any_check False None (string_base (is_uri w) [Alphanum])),
         (''on_change'', validate w onChangeSchema),
         (''args'', validate w argsSchema)]"
  from shorthand_or_object [OF assms [unfolded validate_DataSourceSchema]]
  consider s where "d = Str s" "d' = Str s" "s \<noteq> []"
    | kvs where "d = Obj kvs" "object_base (JSON_parse w) ?cs q d = Inr ([], d')" by blast
  then show ?thesis
  proof cases
    case 1
    then show ?thesis by simp
  next
    case 2
    have dist: "distinct (map fst ?cs)" by simp
    have sp: "object_safeParse (JSON_parse w) d = Obj kvs" using 2(1) by (simp add: object_safeParse_id)
    from object_base_child [OF 2(2) _ dist sp, of "''url''" "any_check True None (string_base (is_uri w) [Uri])"]
    obtain e x' t' where u: "any_check True None (string_base (is_uri w) [Uri]) (q @ [Key ''url'']) (lookup kvs ''url'') = Inr (e, x')"
      "set e \<subseteq> set []" "d' = Obj t'" "fst ` set t' \<subseteq> fst ` set ?cs"
      "lookup t' ''url'' = (if e = [] \<and> x' \<noteq> Undefined then x' else lookup kvs ''url'')"
      by auto
    have "x' = lookup kvs ''url''" using u(1) string_base_value
      by (auto simp: any_check_def split: if_splits)
    then have url: "lookup t' ''url'' = lookup kvs ''url''" using u(5) by simp
    from object_base_child [OF 2(2) _ dist sp, of "''alias''" "any_check False None (string_base (is_uri w) [Alphanum])"]
    obtain e2 x2 t2 where a: "any_check False None (string_base (is_uri w) [Alphanum]) (q @ [Key ''alias'']) (lookup kvs ''alias'') = Inr (e2, x2)"
      "set e2 \<subseteq> set []" "d' = Obj t2"
      "lookup t2 ''alias'' = (if e2 = [] \<and> x2 \<noteq> Undefined then x2 else lookup kvs ''alias'')"
      by auto
    have "x2 = lookup kvs ''alias''" using a(1) string_base_value
      by (auto simp: any_check_def split: if_splits)
    then have al: "lookup t' ''alias'' = lookup kvs ''alias''" using a(3,4) u(3) by simp
    have "e2 = []" using a(2) by simp
    then show ?thesis using 2(1) u(3,4) url al a(1) by auto
  qed
qed

subsection \<open>Duplicates\<close>

lemma DataSourceSchema_url:
  assumes "validate w DataSourceSchema q (Obj kvs) = Inr ([], d')"
  shows "\<exists>u. lookup kvs ''url'' = Str u \<and> u \<noteq> [] \<and> is_uri w u"
proof -
  let ?cs = "[(''url'', any_check True None (string_base (is_uri w) [Uri])),
         (''alias'', any_check False None (string_base (is_uri w) [Alphanum])),
         (''on_change'', validate w onChangeSchema),
         (''args'', validate w argsSchema)]"
  have "Obj kvs \<noteq> Undefined" by simp
  from shorthand_or_object [OF assms [unfolded validate_DataSourceSchema] this]
  have ob: "object_base (JSON_parse w) ?cs q (Obj kvs) = Inr ([], d')" by simp
  have dist: "distinct (map fst ?cs)" by simp
  have sp: "object_safeParse (JSON_parse w) (Obj kvs) = Obj kvs" by (simp add: object_safeParse_id)
  from object_base_child [OF ob _ dist sp, of "''url''" "any_check True None (string_base (is_uri w) [Uri])"]
  obtain e x' where u: "any_check True None (string_base (is_uri w) [Uri]) (q @ [Key ''url'']) (lookup kvs ''url'') = Inr (e, x')"
    "set e \<subseteq> set []" by auto
  then have h: "any_check True None (string_base (is_uri w) [Uri]) (q @ [Key ''url'']) (lookup kvs ''url'') = Inr ([], x')"
    by simp
  show ?thesis
  proof (cases "lookup kvs ''url''")
    case (Str u)
    then have "u \<noteq> [] \<and> is_uri w u"
      using h by (auto simp: any_check_def string_base_def split: if_splits)
    then show ?thesis using Str by simp
  qed (use h in \<open>simp_all add: any_check_def string_base_def\<close>)
qed

lemma checkUniqueField_identifying:
  assumes "(\<exists>s. a = Str s) \<or> (\<exists>kvs. a = Obj kvs)" and "(\<exists>s. b = Str s) \<or> (\<exists>kvs. b = Obj kvs)"
  shows "checkUniqueField field a b =
           Inr (strict_eq (identifying_field field a) (identifying_field field b))"
  using assms by (auto simp: checkUniqueField_def identifying_field_def)

lemma find_dupe_key:
  assumes "\<And>r. r \<in> set records \<Longrightarrow> cmp r item = Inr (key r = key item)"
  shows "find_dupe cmp records item = Inr (key item \<in> key ` set records)"
  using assms by (induction records) auto

lemma unique_scan_distinct:
  assumes "\<And>a b. a \<in> set records \<union> set xs \<Longrightarrow> b \<in> set xs \<Longrightarrow> cmp a b = Inr (key a = key b)"
    and "distinct (map key (records @ xs))"
  shows "unique_scan cmp records i xs = Inr None"
  using assms
proof (induction xs arbitrary: records i)
  case Nil
  then show ?case by simp
next
  case (Cons x xs)
  have f: "find_dupe cmp records x = Inr (key x \<in> key ` set records)"
    by (rule find_dupe_key) (use Cons.prems(1) in auto)
  have nx: "key x \<notin> key ` set records" using Cons.prems(2) by auto
  have "unique_scan cmp (records @ [x]) (Suc i) xs = Inr None"
    by (rule Cons.IH) (use Cons.prems in auto)
  then show ?case using f nx by simp
qed

lemma unique_scan_repeat:
  assumes "\<And>a b. a \<in> set records \<union> set xs \<Longrightarrow> b \<in> set xs \<Longrightarrow> cmp a b = Inr (key a = key b)"
    and "distinct (map key records)" and "\<not> distinct (map key (records @ xs))"
  shows "\<exists>n. unique_scan cmp records i xs = Inr (Some (i + n)) \<and> n < length xs \<and>
              key (xs ! n) \<in> key ` (set records \<union> set (take n xs)) \<and>
              distinct (map key (records @ take n xs))"
  using assms
proof (induction xs arbitrary: records i)
  case Nil
  then show ?case by simp
next
  case (Cons x xs)
  have f: "find_dupe cmp records x = Inr (key x \<in> key ` set records)"
    by (rule find_dupe_key) (use Cons.prems(1) in auto)
  show ?case
  proof (cases "key x \<in> key ` set records")
    case True
    then have "unique_scan cmp records i (x # xs) = Inr (Some (i + 0))" using f by simp
    moreover have "key ((x # xs) ! 0) \<in> key ` (set records \<union> set (take 0 (x # xs)))" using True by simp
    moreover have "distinct (map key (records @ take 0 (x # xs)))" using Cons.prems(2) by simp
    ultimately show ?thesis by (intro exI [of _ 0]) simp
  next
    case False
    have d: "distinct (map key (records @ [x]))" using False Cons.prems(2) by auto
    have nd: "\<not> distinct (map key ((records @ [x]) @ xs))" using Cons.prems(3) by simp
    have c: "\<And>a b. a \<in> set (records @ [x]) \<union> set xs \<Longrightarrow> b \<in> set xs \<Longrightarrow> cmp a b = Inr (key a = key b)"
      using Cons.prems(1) by auto
    from Cons.IH [OF c d nd, of "Suc i"] obtain n where
      n: "unique_scan cmp (records @ [x]) (Suc i) xs = Inr (Some (Suc i + n))" "n < length xs"
         "key (xs ! n) \<in> key ` (set (records @ [x]) \<union> set (take n xs))"
         "distinct (map key ((records @ [x]) @ take n xs))" by blast
    have "unique_scan cmp records i (x # xs) = Inr (Some (i + Suc n))" using f False n(1) by simp
    moreover have "Suc n < length (x # xs)" using n(2) by simp
    moreover have "key ((x # xs) ! Suc n) \<in> key ` (set records \<union> set (take (Suc n) (x # xs)))"
      using n(3) by auto
    moreover have "distinct (map key (records @ take (Suc n) (x # xs)))" using n(4) by simp
    ultimately show ?thesis by blast
  qed
qed

lemma datasources_unique:
  assumes valid: "\<And>d. d \<in> set ds \<Longrightarrow> d \<noteq> Undefined \<and> (\<forall>q. \<exists>d'. validate w DataSourceSchema q d = Inr ([], d'))"
  shows "\<exists>errs ys. array_base (JSON_parse w) (Some (validate w DataSourceSchema)) False
                      [Unique (checkUniqueField ''url'')] p (Arr ds) = Inr (errs, Arr ys) \<and>
           (distinct (map (identifying_field ''url'') ds) \<longrightarrow> errs = []) \<and>
           (\<not> distinct (map (identifying_field ''url'') ds) \<longrightarrow>
              (\<exists>n < length ds. errs = [(p @ [Idx n], ''array.unique'')] \<and>
                 identifying_field ''url'' (ds ! n) \<in> identifying_field ''url'' ` set (take n ds) \<and>
                 distinct (map (identifying_field ''url'') (take n ds))))"
proof -
  let ?V = "validate w DataSourceSchema"
  let ?cmp = "checkUniqueField ''url''"
  let ?key = "identifying_field ''url''"
  obtain ds' where c: "check_items (Some ?V) True p 0 ds = Inr ([], ds')"
    using check_items_valid [of ds ?V True p 0] valid by blast
  have la: "list_all2 (\<lambda>x x'. x \<noteq> Undefined \<and> (\<exists>q. ?V q x = Inr ([], x'))) ds ds'"
    using check_items_ok [OF c] .
  have len: "length ds' = length ds" using la by (simp add: list_all2_lengthD)
  have form: "?key (ds' ! n) = ?key (ds ! n) \<and> (\<exists>u. ?key (ds' ! n) = Str u) \<and>
              ((\<exists>s. ds' ! n = Str s) \<or> (\<exists>kvs. ds' ! n = Obj kvs))" if "n < length ds" for n
  proof -
    from list_all2_nthD [OF la that] obtain q where
      o: "ds ! n \<noteq> Undefined" "?V q (ds ! n) = Inr ([], ds' ! n)" by blast
    from DataSourceSchema_output [OF o(2,1)]
    consider s where "ds ! n = Str s" "ds' ! n = Str s"
      | kvs kvs' where "ds ! n = Obj kvs" "ds' ! n = Obj kvs'" "lookup kvs' ''url'' = lookup kvs ''url''"
      by blast
    then show ?thesis
    proof cases
      case 1
      then show ?thesis by (simp add: identifying_field_def)
    next
      case 2
      obtain u where "lookup kvs ''url'' = Str u"
        using DataSourceSchema_url [of w q kvs "ds' ! n"] o(2) 2(1) by auto
      then show ?thesis using 2 by (simp add: identifying_field_def)
    qed
  qed
  have keys: "map ?key ds' = map ?key ds"
    by (rule nth_equalityI) (use len form in auto)
  have cmp: "?cmp a b = Inr (?key a = ?key b)" if "a \<in> set ds'" "b \<in> set ds'" for a b
  proof -
    from that obtain m n where m: "m < length ds" "ds' ! m = a" and n: "n < length ds" "ds' ! n = b"
      using len by (auto simp: in_set_conv_nth)
    from form [OF m(1)] m(2) obtain ua where a: "?key a = Str ua" "(\<exists>s. a = Str s) \<or> (\<exists>kvs. a = Obj kvs)"
      by auto
    from form [OF n(1)] n(2) obtain ub where b: "?key b = Str ub" "(\<exists>s. b = Str s) \<or> (\<exists>kvs. b = Obj kvs)"
      by auto
    show ?thesis
      unfolding checkUniqueField_identifying [OF a(2) b(2)] a(1) b(1) by simp
  qed
  have cmp': "\<And>a b. a \<in> set [] \<union> set ds' \<Longrightarrow> b \<in> set ds' \<Longrightarrow> ?cmp a b = Inr (?key a = ?key b)"
    using cmp by simp
  have base: "array_base (JSON_parse w) (Some ?V) False [Unique ?cmp] p (Arr ds)
              = (case unique_scan ?cmp [] 0 ds' of
                   Inl e \<Rightarrow> Inl e
                 | Inr None \<Rightarrow> Inr ([], Arr ds')
                 | Inr (Some i) \<Rightarrow> Inr ([(p @ [Idx i], ''array.unique'')], Arr ds'))"
    using c by (simp add: array_base_not_single array_safeParse_id run_array_tests_def
        split: sum.splits option.splits)
  show ?thesis
  proof (cases "distinct (map ?key ds)")
    case True
    then have "distinct (map ?key ([] @ ds'))" using keys by simp
    from unique_scan_distinct [OF cmp' this, of 0]
    show ?thesis using base True by simp
  next
    case False
    then have nd: "\<not> distinct (map ?key ([] @ ds'))" using keys by simp
    have d0: "distinct (map ?key [])" by simp
    from unique_scan_repeat [OF cmp' d0 nd, of 0] obtain n where
      n: "unique_scan ?cmp [] 0 ds' = Inr (Some n)" "n < length ds'"
         "?key (ds' ! n) \<in> ?key ` set (take n ds')" "distinct (map ?key (take n ds'))"
      by auto
    have t: "map ?key (take n ds') = map ?key (take n ds)"
      using keys by (simp add: take_map [symmetric])
    have "?key (ds ! n) \<in> ?key ` set (take n ds)"
    proof -
      have "?key (ds' ! n) \<in> set (map ?key (take n ds'))" using n(3) by simp
      then have "?key (ds' ! n) \<in> set (map ?key (take n ds))" unfolding t .
      moreover have "?key (ds' ! n) = ?key (ds ! n)" using form n(2) len by simp
      ultimately show ?thesis by simp
    qed
    moreover have "distinct (map ?key (take n ds))" using n(4) unfolding t .
    moreover have "array_base (JSON_parse w) (Some ?V) False [Unique ?cmp] p (Arr ds)
              = Inr ([(p @ [Idx n], ''array.unique'')], Arr ds')"
      using base n(1) by simp
    ultimately show ?thesis using False n(2) len by auto
  qed
qed

lemma item_datasources_errors:
  assumes ds: "lookup item ''datasources'' = Arr ds"
    and a: "array_base (JSON_parse w) (Some (validate w DataSourceSchema)) False
              [Unique (checkUniqueField ''url'')] (q @ [Key ''datasources'']) (Arr ds) = Inr (e, y)"
  shows "\<exists>errs v. validate w ConfigItemSchema q (Obj item) = Inr (errs, v) \<and> set e \<subseteq> set errs"
proof -
  let ?A = "array_base (JSON_parse w) (Some (validate w DataSourceSchema)) False [Unique (checkUniqueField ''url'')]"
  let ?cs = "[(''watch'', any_check False (Some (Bool False)) boolean_base),
      (''dependencies'', any_check False (Some (Arr []))
         (array_base (JSON_parse w) (Some (validate w FilePathSchema)) False [Unique (checkUniqueField ''path'')])),
      (''templates'', any_check False (Some (Arr []))
         (array_base (JSON_parse w) (Some (validate w FilePathSchema)) False [Unique (checkUniqueField ''path'')])),
      (''datasources'', any_check False (Some (Arr [])) ?A),
      (''files'', any_check False (Some (Arr []))
         (array_base (JSON_parse w) (Some (validate w FileSchema)) False [Unique (checkUniqueField ''input_path'')])),
      (''on_change'', validate w onChangeSchema),
      (''args'', validate w argsSchema)]"
  obtain errs v where r: "validate w ConfigItemSchema q (Obj item) = Inr (errs, v)"
    using ConfigItemSchema_total [of w q "Obj item"] by fastforce
  then have ob: "object_base (JSON_parse w) ?cs q (Obj item) = Inr (errs, v)"
    by (simp add: validate_ConfigItemSchema any_check_defined)
  have dist: "distinct (map fst ?cs)" by simp
  have sp: "object_safeParse (JSON_parse w) (Obj item) = Obj item" by (simp add: object_safeParse_id)
  from object_base_child [OF ob _ dist sp, of "''datasources''" "any_check False (Some (Arr [])) ?A"]
  obtain e1 x' where c: "any_check False (Some (Arr [])) ?A (q @ [Key ''datasources'']) (lookup item ''datasources'') = Inr (e1, x')"
    "set e1 \<subseteq> set errs" by auto
  have "e1 = e" using c(1) ds a by (simp add: any_check_defined)
  then show ?thesis using r c(2) by auto
qed

lemma ConfigItemSchema_not_object:
  "validate w ConfigItemSchema q (Arr xs) = Inr ([(q, ''object.base'')], Arr xs)"
  by (simp add: validate_ConfigItemSchema any_check_defined object_base_not_object object_safeParse_id)

lemma config_item_errors:
  assumes shape: "curData = Arr docs \<and> k < length docs \<and> docs ! k = Obj item \<and> pre = [Idx k] \<or>
                  curData = Obj item \<and> pre = []"
    and item: "validate w ConfigItemSchema pre (Obj item) = Inr (e, x')" and ne: "e \<noteq> []"
  shows "\<exists>errs v. validate w ConfigSchema [] curData = Inr (errs, v) \<and> set e \<subseteq> set errs \<and> errs \<noteq> []"
proof -
  let ?I = "validate w ConfigItemSchema"
  from shape show ?thesis
  proof (elim disjE conjE)
    assume a: "curData = Arr docs" "k < length docs" "docs ! k = Obj item" "pre = [Idx k]"
    obtain es ys where c: "check_items (Some ?I) True [] 0 docs = Inr (es, ys)"
      using check_items_total [of "Some ?I" True "[]" 0 docs] ConfigItemSchema_total by fastforce
    have "docs ! k \<noteq> Undefined" using a(3) by simp
    from check_items_errs [OF c a(2) this] item a(3,4)
    have sub: "set e \<subseteq> set es" by (auto simp: item_path_def)
    then have nes: "es \<noteq> []" using ne by auto
    have "array_base (JSON_parse w) (Some ?I) True [Min 1] [] curData = Inr (es, Arr ys)"
      using a(1) c nes
      by (simp add: array_base_def array_safeParse_id ConfigItemSchema_not_object item_path_def)
    then have "validate w ConfigSchema [] curData = Inr (es, Arr ys)"
      using a(1) by (simp add: validate_ConfigSchema any_check_defined)
    then show ?thesis using sub nes by blast
  next
    assume a: "curData = Obj item" "pre = []"
    have "array_base (JSON_parse w) (Some ?I) True [Min 1] [] curData = Inr (e, Arr [Obj item])"
      using a item ne by (simp add: array_base_def array_safeParse_id item_path_def)
    then have "validate w ConfigSchema [] curData = Inr (e, Arr [Obj item])"
      using a(1) by (simp add: validate_ConfigSchema any_check_defined)
    then show ?thesis using ne by blast
  qed
qed

lemma datasources_schema:
  "validate w (default' (Arr []) (unique (checkUniqueField ''url'') (items DataSourceSchema Joi_array))) p (Arr ds)
   = array_base (JSON_parse w) (Some (validate w DataSourceSchema)) False
       [Unique (checkUniqueField ''url'')] p (Arr ds)"
  by (simp add: Joi_array_def any_check_defined)

text \<open>
  C6 as stated fails. In the first document the \<^verbatim>\<open>datasources\<close> hold the bare string
  \<^verbatim>\<open>https://x/y\<close> and an object with the same \<^verbatim>\<open>url\<close>, beside the number 5; in the second they
  hold the bare string \<^verbatim>\<open>data.json\<close> and an object with the same \<^verbatim>\<open>url\<close>, which is not a URI.
  Validation fails on both, and neither error holds a violation of \<^verbatim>\<open>array.unique\<close>: an array
  with an item that is not valid does not reach its rule \<^verbatim>\<open>unique\<close>.
\<close>

theorem duplicate_url_counterexample:
  "parseConfig (world0\<lparr>YAML_parse := (\<lambda>s. Inr (Arr [Obj [(''datasources'',
        Arr [Num 5, Str ''https://x/y'', Obj [(''url'', Str ''https://x/y'')]])]]))\<rparr>)
     ''- datasources: [5, https://x/y, {url: https://x/y}]''
   = Inl (ValidationError
       [([Idx 0, Key ''datasources'', Idx 0], ''string.base''),
        ([Idx 0, Key ''datasources'', Idx 0], ''object.base'')]) \<and>
   parseConfig (world0\<lparr>YAML_parse := (\<lambda>s. Inr (Arr [Obj [(''datasources'',
        Arr [Str ''data.json'', Obj [(''url'', Str ''data.json'')]])]]))\<rparr>)
     ''- datasources: [data.json, {url: data.json}]''
   = Inl (ValidationError
       [([Idx 0, Key ''datasources'', Idx 1], ''string.base''),
        ([Idx 0, Key ''datasources'', Idx 1, Key ''url''], ''string.uri'')])"
  by code_simp

text \<open>
  C6, amended. Take a document, an array of items (the item at position \<open>k\<close>, with
  \<open>pre = [k]\<close>) or a single item (\<open>pre = []\<close>), in which the \<^verbatim>\<open>datasources\<close> of the item hold,
  among data sources that are each valid on their own, a bare string \<open>u\<close> and an object whose
  \<^verbatim>\<open>url\<close> is \<open>u\<close>, in either order. Then \<^verbatim>\<open>parseConfig\<close> throws the validation error, and its
  details hold a violation of type \<^verbatim>\<open>array.unique\<close> at the position \<open>n\<close> of that array, the first
  position whose identifying field repeats the one of an earlier position. The comparator
  \<^verbatim>\<open>checkUniqueField('url')\<close> compares the identifying fields of two entities, each a bare
  string or an object; and an array of valid data sources whose identifying fields are all
  different passes the rule.
\<close>

theorem duplicate_url_rejected:
  assumes "YAML_parse w conf = Inr curData"
    and "curData = Arr docs \<and> k < length docs \<and> docs ! k = Obj item \<and> pre = [Idx k] \<or>
         curData = Obj item \<and> pre = []"
    and "lookup item ''datasources'' = Arr ds"
    and "\<forall>d \<in> set ds. d \<noteq> Undefined \<and> (\<forall>q. \<exists>d'. validate w DataSourceSchema q d = Inr ([], d'))"
    and "i < length ds" and "j < length ds"
    and "ds ! i = Str u" and "ds ! j = Obj kvs" and "lookup kvs ''url'' = Str u"
  shows "(\<exists>details n. parseConfig w conf = Inl (ValidationError details) \<and>
            (pre @ [Key ''datasources'', Idx n], ''array.unique'') \<in> set details \<and> n < length ds \<and>
            identifying_field ''url'' (ds ! n) \<in> identifying_field ''url'' ` set (take n ds) \<and>
            distinct (map (identifying_field ''url'') (take n ds))) \<and>
         (\<forall>a b. (\<exists>s. a = Str s) \<or> (\<exists>kvs. a = Obj kvs) \<longrightarrow> (\<exists>s. b = Str s) \<or> (\<exists>kvs. b = Obj kvs) \<longrightarrow>
            checkUniqueField ''url'' a b =
              Inr (strict_eq (identifying_field ''url'' a) (identifying_field ''url'' b))) \<and>
         (\<forall>ds2 p. (\<forall>d \<in> set ds2. d \<noteq> Undefined \<and>
                      (\<forall>q. \<exists>d'. validate w DataSourceSchema q d = Inr ([], d'))) \<longrightarrow>
            distinct (map (identifying_field ''url'') ds2) \<longrightarrow>
            (\<exists>ys. validate w (default' (Arr [])
                     (unique (checkUniqueField ''url'') (items DataSourceSchema Joi_array))) p (Arr ds2)
                   = Inr ([], Arr ys)))"
proof (intro conjI allI impI)
  let ?key = "identifying_field ''url''"
  have valid: "\<And>d. d \<in> set ds \<Longrightarrow> d \<noteq> Undefined \<and> (\<forall>q. \<exists>d'. validate w DataSourceSchema q d = Inr ([], d'))"
    using assms(4) by blast
  have ne: "i \<noteq> j" using assms(7,8) by auto
  have ki: "?key (ds ! i) = Str u" using assms(7) by (simp add: identifying_field_def)
  have kj: "?key (ds ! j) = Str u" using assms(8,9) by (simp add: identifying_field_def)
  have nd: "\<not> distinct (map ?key ds)"
  proof
    assume "distinct (map ?key ds)"
    moreover have "i < length (map ?key ds)" "j < length (map ?key ds)" using assms(5,6) by simp_all
    ultimately have "map ?key ds ! i \<noteq> map ?key ds ! j"
      using ne nth_eq_iff_index_eq by blast
    then show False using ki kj assms(5,6) by simp
  qed
  from datasources_unique [OF valid, where p = "pre @ [Key ''datasources'']"] nd
  obtain ys n where n: "array_base (JSON_parse w) (Some (validate w DataSourceSchema)) False
        [Unique (checkUniqueField ''url'')] (pre @ [Key ''datasources'']) (Arr ds)
        = Inr ([((pre @ [Key ''datasources'']) @ [Idx n], ''array.unique'')], Arr ys)"
    "n < length ds" "?key (ds ! n) \<in> ?key ` set (take n ds)" "distinct (map ?key (take n ds))"
    by blast
  from item_datasources_errors [OF assms(3) n(1)] obtain e x' where
    e: "validate w ConfigItemSchema pre (Obj item) = Inr (e, x')"
       "(pre @ [Key ''datasources'', Idx n], ''array.unique'') \<in> set e" by auto
  then have "e \<noteq> []" by auto
  from config_item_errors [OF assms(2) e(1) this] obtain errs v where
    r: "validate w ConfigSchema [] curData = Inr (errs, v)" "set e \<subseteq> set errs" "errs \<noteq> []" by blast
  have "parseConfig w conf = Inl (ValidationError errs)"
    using assms(1) r(1,3) by (simp add: parseConfig_def)
  then show "\<exists>details n. parseConfig w conf = Inl (ValidationError details) \<and>
            (pre @ [Key ''datasources'', Idx n], ''array.unique'') \<in> set details \<and> n < length ds \<and>
            ?key (ds ! n) \<in> ?key ` set (take n ds) \<and> distinct (map ?key (take n ds))"
    using e(2) r(2) n(2,3,4) by blast
next
  fix a b
  assume "(\<exists>s. a = Str s) \<or> (\<exists>kvs. a = Obj kvs)" "(\<exists>s. b = Str s) \<or> (\<exists>kvs. b = Obj kvs)"
  then show "checkUniqueField ''url'' a b =
              Inr (strict_eq (identifying_field ''url'' a) (identifying_field ''url'' b))"
    by (rule checkUniqueField_identifying)
next
  fix ds2 p
  assume v: "\<forall>d \<in> set ds2. d \<noteq> Undefined \<and> (\<forall>q. \<exists>d'. validate w DataSourceSchema q d = Inr ([], d'))"
    and d: "distinct (map (identifying_field ''url'') ds2)"
  have valid2: "\<And>d. d \<in> set ds2 \<Longrightarrow> d \<noteq> Undefined \<and> (\<forall>q. \<exists>d'. validate w DataSourceSchema q d = Inr ([], d'))"
    using v by blast
  from datasources_unique [OF valid2, where p = p] d
  show "\<exists>ys. validate w (default' (Arr [])
                     (unique (checkUniqueField ''url'') (items DataSourceSchema Joi_array))) p (Arr ds2)
                   = Inr ([], Arr ys)"
    unfolding datasources_schema by blast
qed

theorem duplicate_url_rejected_witness:
  "\<exists>details n.
     parseConfig (world0\<lparr>YAML_parse := (\<lambda>s. Inr (Obj [(''datasources'',
        Arr [Str ''https://x/y'', Obj [(''url'', Str ''https://x/y'')]])]))\<rparr>)
       ''datasources: [https://x/y, {url: https://x/y}]''
     = Inl (ValidationError details) \<and>
     ([Key ''datasources'', Idx n], ''array.unique'') \<in> set details"
proof -
  let ?ds = "[Str ''https://x/y'', Obj [(''url'', Str ''https://x/y'')]]"
  let ?doc = "Obj [(''datasources'', Arr ?ds)]"
  let ?w = "world0\<lparr>YAML_parse := (\<lambda>s. Inr ?doc)\<rparr>"
  have v1: "validate ?w DataSourceSchema q (Str ''https://x/y'') = Inr ([], Str ''https://x/y'')" for q
    by (simp add: validate_DataSourceSchema any_check_def string_base_def)
  have a: "validate w argsSchema q Undefined = Inr ([], Undefined)" for w q
    by (simp add: validate_argsSchema any_check_def)
  have b: "validate w onChangeSchema q Undefined = Inr ([], Undefined)" for w q
    by (simp add: validate_onChangeSchema any_check_def)
  have v2: "validate ?w DataSourceSchema q (Obj [(''url'', Str ''https://x/y'')])
            = Inr ([], Obj [(''url'', Str ''https://x/y'')])" for q
    by (simp add: validate_DataSourceSchema any_check_def string_base_def object_base_def
        object_safeParse_id a b world0_def)
  have valid: "\<forall>d \<in> set ?ds. d \<noteq> Undefined \<and> (\<forall>q. \<exists>d'. validate ?w DataSourceSchema q d = Inr ([], d'))"
    using v1 v2 by simp
  have h1: "YAML_parse ?w ''datasources: [https://x/y, {url: https://x/y}]'' = Inr ?doc" by simp
  have h2: "?doc = Arr [] \<and> 0 < length ([] :: jsv list) \<and> [] ! 0 = Obj [(''datasources'', Arr ?ds)] \<and> [] = [Idx 0] \<or>
            ?doc = Obj [(''datasources'', Arr ?ds)] \<and> ([] :: path_elem list) = []" by simp
  have h3: "lookup [(''datasources'', Arr ?ds)] ''datasources'' = Arr ?ds" by simp
  have h5: "0 < length ?ds" "1 < length ?ds" by simp_all
  have h7: "?ds ! 0 = Str ''https://x/y''" "?ds ! 1 = Obj [(''url'', Str ''https://x/y'')]"
    "lookup [(''url'', Str ''https://x/y'')] ''url'' = Str ''https://x/y''" by simp_all
  from duplicate_url_rejected [OF h1 h2 h3 valid h5 h7, THEN conjunct1]
  obtain details n where "parseConfig ?w ''datasources: [https://x/y, {url: https://x/y}]'' = Inl (ValidationError details)"
    "([] @ [Key ''datasources'', Idx n], ''array.unique'') \<in> set details" by blast
  then show ?thesis by auto
qed

text \<open>
  C9. The template \<^verbatim>\<open>out-[name].txt\<close> compiles to one function: its parts are the text
  \<^verbatim>\<open>out-\<close>, the name \<^verbatim>\<open>name\<close> and the text \<^verbatim>\<open>.txt\<close>. Rendering that function with
  \<^verbatim>\<open>{name: "a"}\<close> gives \<^verbatim>\<open>out-a.txt\<close>, and rendering the same function with \<^verbatim>\<open>{name: "b"}\<close>
  gives \<^verbatim>\<open>out-b.txt\<close>; \<^verbatim>\<open>mapFile\<close> stores this function as \<^verbatim>\<open>makeOutputPath\<close>.
\<close>

theorem template_round_trip:
  "template_tokens ''out-[name].txt'' = [Text ''out-'', Interpolate ''name'', Text ''.txt''] \<and>
   (let compiled = template_tokens ''out-[name].txt'' in
      render compiled [''name'' \<mapsto> ''a''] = Inr ''out-a.txt'' \<and>
      render compiled [''name'' \<mapsto> ''b''] = Inr ''out-b.txt'') \<and>
   mapFile w (Obj [(''input_path'', Str ''in.tpl''), (''output_path'', Str ''out-[name].txt'')]) =
     Obj [(''input_path'', Str ''in.tpl''), (''output_path'', Str ''out-[name].txt''),
          (''makeOutputPath'', Fun (template_tokens ''out-[name].txt''))]"
proof -
  have t: "template_tokens ''out-[name].txt'' = [Text ''out-'', Interpolate ''name'', Text ''.txt'']"
    by (simp add: template_tokens_def flush_def is_word_def alnum_def)
  have m: "mapFile w (Obj [(''input_path'', Str ''in.tpl''), (''output_path'', Str ''out-[name].txt'')]) =
     Obj [(''input_path'', Str ''in.tpl''), (''output_path'', Str ''out-[name].txt''),
          (''makeOutputPath'', Fun (template_tokens ''out-[name].txt''))]"
    by (simp add: mapFile_def shorthand_def object_assign_def map_on_change_prop_def template_def
        js_string_def)
  show ?thesis unfolding m Let_def unfolding t by simp
qed

text \<open>
  C10. When \<^verbatim>\<open>DataSourceSchema\<close> accepts a data source in object form that has an alias, the
  alias is a non-empty string of letters and digits only. Such an alias holds no bracket,
  so the function compiled from it has no placeholder: it is the constant text of the
  alias, and renders to the alias in every context.
\<close>

theorem alias_alphanum:
  assumes "validate w DataSourceSchema p (Obj kvs) = Inr ([], v)"
    and "lookup kvs ''alias'' \<noteq> Undefined"
  shows "\<exists>s. lookup kvs ''alias'' = Str s \<and> s \<noteq> [] \<and> list_all alnum s \<and>
             template w' (Str s) = [Text s] \<and> (\<forall>ctx. render (template w' (Str s)) ctx = Inr s)"
proof -
  from DataSourceSchema_output [OF assms(1)] obtain a where
    "any_check False None (string_base (is_uri w) [Alphanum]) (p @ [Key ''alias'']) (lookup kvs ''alias'') = Inr ([], a)"
    by auto
  then have sb: "string_base (is_uri w) [Alphanum] (p @ [Key ''alias'']) (lookup kvs ''alias'') = Inr ([], a)"
    using assms(2) by (simp add: any_check_def)
  have "\<exists>s. lookup kvs ''alias'' = Str s \<and> s \<noteq> [] \<and> list_all alnum s"
  proof (cases "lookup kvs ''alias''")
    case (Str s)
    then have "s \<noteq> [] \<and> list_all alnum s"
      using sb by (auto simp: string_base_def split: if_splits)
    then show ?thesis using Str by blast
  qed (use sb in \<open>simp_all add: string_base_def\<close>)
  then obtain s where s: "lookup kvs ''alias'' = Str s" "s \<noteq> []" "list_all alnum s" by blast
  have "template w' (Str s) = [Text s]"
    using s by (simp add: template_def js_string_def template_alnum flush_def)
  then show ?thesis using s by auto
qed

theorem alias_alphanum_witness:
  "lookup [(''url'', Str ''file:///data/a.json''), (''alias'', Str ''a1'')] ''alias'' = Str ''a1'' \<and>
   list_all alnum ''a1'' \<and> template world0 (Str ''a1'') = [Text ''a1''] \<and>
   (\<forall>ctx. render (template world0 (Str ''a1'')) ctx = Inr ''a1'')"
proof -
  let ?kvs = "[(''url'', Str ''file:///data/a.json''), (''alias'', Str ''a1'')]"
  have a: "validate w argsSchema q Undefined = Inr ([], Undefined)" for w q
    by (simp add: validate_argsSchema any_check_def)
  have b: "validate w onChangeSchema q Undefined = Inr ([], Undefined)" for w q
    by (simp add: validate_onChangeSchema any_check_def)
  have al: "list_all alnum ''a1''" by (simp add: alnum_def)
  have v: "validate world0 DataSourceSchema [] (Obj ?kvs) = Inr ([], Obj ?kvs)"
    by (simp add: validate_DataSourceSchema any_check_def string_base_def object_base_def
        object_safeParse_id a b alnum_def world0_def)
  show ?thesis
    using alias_alphanum [OF v, where w' = world0] by simp
qed

section \<open>Properties of the normalisation\<close>

lemma run_array_tests_value: "run_array_tests p xs tests = Inr (errs, y) \<Longrightarrow> y = Arr xs"
  by (auto simp: run_array_tests_def split: sum.splits)

lemma array_base_ok:
  assumes "array_base J (Some s) sg tests p v = Inr ([], y)"
  shows "\<exists>ys. y = Arr ys \<and> (\<forall>y' \<in> set ys. \<exists>q x. x \<noteq> Undefined \<and> s q x = Inr ([], y'))"
proof -
  have items: "\<forall>y' \<in> set zs. \<exists>q x. x \<noteq> Undefined \<and> s q x = Inr ([], y')"
    if "check_items (Some s) wa p 0 xs = Inr ([], zs)" for wa xs zs
  proof
    fix y' assume "y' \<in> set zs"
    then obtain n where n: "n < length zs" "zs ! n = y'" by (auto simp: in_set_conv_nth)
    from list_all2_nthD2 [OF check_items_ok [OF that] n(1)] n(2)
    show "\<exists>q x. x \<noteq> Undefined \<and> s q x = Inr ([], y')" by blast
  qed
  from assms obtain wasArray xs where
    "(case array_safeParse J v of Arr xs \<Rightarrow> Some (True, xs)
      | value \<Rightarrow> if sg then Some (False, [value]) else None) = Some (wasArray, xs)"
    by (auto simp: array_base_def split: option.splits)
  with assms obtain e xs' where c: "check_items (Some s) wasArray p 0 xs = Inr (e, xs')"
    and r: "(if e = [] then run_array_tests p xs' tests
             else if wasArray \<and> sg then
               (case check_items (Some s) wasArray p 0 [Arr xs'] of
                  Inl e \<Rightarrow> Inl e
                | Inr (errs2, ys) \<Rightarrow>
                    if errs2 = [] then run_array_tests p ys tests else Inr (e, Arr xs'))
             else Inr (e, Arr xs')) = Inr ([], y)"
    by (auto simp: array_base_def split: sum.splits prod.splits)
  show ?thesis
  proof (cases "e = []")
    case True
    then have "y = Arr xs'" using r run_array_tests_value by simp
    then show ?thesis using items c True by blast
  next
    case False
    then obtain ys where c2: "check_items (Some s) wasArray p 0 [Arr xs'] = Inr ([], ys)"
      and "run_array_tests p ys tests = Inr ([], y)"
      using r by (auto split: if_splits sum.splits prod.splits)
    then have "y = Arr ys" using run_array_tests_value by simp
    then show ?thesis using items c2 by blast
  qed
qed

lemma ConfigItemSchema_output:
  assumes "validate w ConfigItemSchema q x = Inr ([], x')" and "x \<noteq> Undefined"
  shows "\<exists>kvs ds. x' = Obj kvs \<and> lookup kvs ''datasources'' = Arr ds \<and>
           (\<forall>d \<in> set ds. \<exists>p d0. d0 \<noteq> Undefined \<and> validate w DataSourceSchema p d0 = Inr ([], d))"
proof -
  let ?A = "array_base (JSON_parse w) (Some (validate w DataSourceSchema)) False [Unique (checkUniqueField ''url'')]"
  let ?cs = "[(''watch'', any_check False (Some (Bool False)) boolean_base),
      (''dependencies'', any_check False (Some (Arr []))
         (array_base (JSON_parse w) (Some (validate w FilePathSchema)) False [Unique (checkUniqueField ''path'')])),
      (''templates'', any_check False (Some (Arr []))
         (array_base (JSON_parse w) (Some (validate w FilePathSchema)) False [Unique (checkUniqueField ''path'')])),
      (''datasources'', any_check False (Some (Arr [])) ?A),
      (''files'', any_check False (Some (Arr []))
         (array_base (JSON_parse w) (Some (validate w FileSchema)) False [Unique (checkUniqueField ''input_path'')])),
      (''on_change'', validate w onChangeSchema),
      (''args'', validate w argsSchema)]"
  have ob: "object_base (JSON_parse w) ?cs q x = Inr ([], x')"
    using assms by (simp add: validate_ConfigItemSchema any_check_defined)
  then obtain kvs0 where x: "object_safeParse (JSON_parse w) x = Obj kvs0"
    using object_base_accepts by blast
  have dist: "distinct (map fst ?cs)" by simp
  from object_base_child [OF ob _ dist x, of "''datasources''" "any_check False (Some (Arr [])) ?A"]
  obtain e y kvs where c: "any_check False (Some (Arr [])) ?A (q @ [Key ''datasources'']) (lookup kvs0 ''datasources'') = Inr (e, y)"
    "set e \<subseteq> set []" "x' = Obj kvs"
    "lookup kvs ''datasources'' = (if e = [] \<and> y \<noteq> Undefined then y else lookup kvs0 ''datasources'')"
    by auto
  have e: "e = []" using c(2) by simp
  have "\<exists>ds. y = Arr ds \<and> (\<forall>d \<in> set ds. \<exists>p d0. d0 \<noteq> Undefined \<and> validate w DataSourceSchema p d0 = Inr ([], d))"
  proof (cases "lookup kvs0 ''datasources'' = Undefined")
    case True
    then have "y = Arr []" using c(1) by (auto simp: any_check_def)
    then show ?thesis by simp
  next
    case False
    then have "?A (q @ [Key ''datasources'']) (lookup kvs0 ''datasources'') = Inr ([], y)"
      using c(1) e by (simp add: any_check_def)
    from array_base_ok [OF this] show ?thesis .
  qed
  then show ?thesis using c(3,4) e by auto
qed

lemma ConfigSchema_output:
  assumes "validate w ConfigSchema [] curData = Inr ([], val)" and "curData \<noteq> Undefined"
  shows "\<exists>ys. val = Arr ys \<and>
           (\<forall>y \<in> set ys. \<exists>q x. x \<noteq> Undefined \<and> validate w ConfigItemSchema q x = Inr ([], y))"
  using assms array_base_ok [of "JSON_parse w" "validate w ConfigItemSchema" True "[Min 1]" "[]" curData val]
  by (simp add: validate_ConfigSchema any_check_defined)

lemma DataSourceSchema_no_path:
  assumes "validate w DataSourceSchema q d = Inr ([], d')" and "d \<noteq> Undefined"
  shows "(\<exists>s. d' = Str s) \<or> (\<exists>kvs. d' = Obj kvs \<and> ''path'' \<notin> fst ` set kvs)"
  using DataSourceSchema_output [OF assms]
proof (elim disjE exE conjE)
  fix s assume "d' = Str s"
  then show ?thesis by simp
next
  fix kvs kvs' a
  assume o: "d' = Obj kvs'" and k: "fst ` set kvs' \<subseteq> {''url'', ''alias'', ''on_change'', ''args''}"
  have "''path'' \<notin> {''url'', ''alias'', ''on_change'', ''args''}" by simp
  then have "''path'' \<notin> fst ` set kvs'" using k by (rule contra_subsetD [rotated])
  then show ?thesis using o by simp
qed

subsection \<open>The mapping functions\<close>

lemma fold_assign_other:
  "k \<notin> fst ` set kvs \<Longrightarrow> lookup (fold (\<lambda>kv t. assign t (fst kv) (snd kv)) kvs t) k = lookup t k"
  by (induction kvs arbitrary: t) (auto simp: lookup_assign)

lemma lookup_map_on_change_prop:
  "k \<noteq> ''on_change'' \<Longrightarrow> lookup (map_on_change_prop kvs) k = lookup kvs k"
  by (simp add: map_on_change_prop_def lookup_assign)

lemma shorthand_no_path:
  assumes "(\<exists>s. d = Str s) \<or> (\<exists>kvs. d = Obj kvs \<and> ''path'' \<notin> fst ` set kvs)"
  shows "lookup (shorthand w ''url'' d) ''path'' = Undefined"
  using assms by (auto simp: shorthand_def object_assign_def fold_assign_other)

lemma mapDataSource_path:
  assumes "mapDataSource w d = Inr d'"
    and "(\<exists>s. d = Str s) \<or> (\<exists>kvs. d = Obj kvs \<and> ''path'' \<notin> fst ` set kvs)"
  shows "\<exists>kvs'. d' = Obj kvs' \<and>
           (has_path d' \<longleftrightarrow>
              (\<exists>u. URL w (js_string w (lookup kvs' ''url'')) = Inr u \<and> startsWith (protocol u) ''file''))"
proof -
  define curV where "curV = map_on_change_prop (shorthand w ''url'' d)"
  have np: "lookup curV ''path'' = Undefined"
    unfolding curV_def using shorthand_no_path [OF assms(2)] by (simp add: lookup_map_on_change_prop)
  from assms(1) obtain curUrl where u: "URL w (js_string w (lookup curV ''url'')) = Inr curUrl"
    and d': "d' = Obj (if startsWith (protocol curUrl) ''file''
                   then assign (assign curV ''path'' (Str (pathname curUrl)))
                          ''makeAlias'' (Fun (template w (lookup curV ''alias'')))
                   else curV)"
    by (auto simp: mapDataSource_def curV_def Let_def split: sum.splits)
  show ?thesis
  proof (cases "startsWith (protocol curUrl) ''file''")
    case True
    then show ?thesis using u d' by (simp add: has_path_def lookup_assign)
  next
    case False
    then show ?thesis using u d' np by (simp add: has_path_def)
  qed
qed

lemma map_result_all2:
  "map_result f xs = Inr ys \<Longrightarrow> list_all2 (\<lambda>x y. f x = Inr y) xs ys"
  by (induction xs arbitrary: ys) (auto split: sum.splits)

lemma normalize_item_fields:
  assumes "normalize_item w (Obj kvs) = Inr item'" and "lookup kvs ''datasources'' = Arr ds"
  shows "\<exists>kvs' datasources. item' = Obj kvs' \<and> map_result (mapDataSource w) ds = Inr datasources \<and>
           lookup kvs' ''datasources'' = Arr ds \<and>
           lookup kvs' ''fileDataSources'' = Arr (filter has_path datasources) \<and>
           lookup kvs' ''otherDataSources'' = Arr (filter (\<lambda>d. \<not> has_path d) datasources)"
proof -
  have l: "lookup (map_on_change_prop kvs) ''datasources'' = Arr ds"
    using assms(2) by (simp add: lookup_map_on_change_prop)
  from assms(1) obtain datasources where m: "map_result (mapDataSource w) ds = Inr datasources"
    by (auto simp: normalize_item_def Let_def l array_map_def split: sum.splits)
  have nc: "(Not \<circ> has_path) = (\<lambda>d. \<not> has_path d)" by auto
  show ?thesis
    using assms(1) m
    by (auto simp: normalize_item_def Let_def l array_map_def lookup_assign nc split: sum.splits)
qed

lemma parseConfig_files_scheme:
  "parseConfig (world0\<lparr>YAML_parse := (\<lambda>s. Inr (Obj [(''datasources'', Arr [Str ''files://h/x''])]))\<rparr>)
     ''datasources: [files://h/x]''
   = Inr (Arr [Obj [(''datasources'', Arr [Str ''files://h/x'']),
                (''watch'', Bool False), (''dependencies'', Arr []),
                (''templates'', Arr []), (''files'', Arr []),
                (''fileDataSources'',
                 Arr [Obj [(''url'', Str ''files://h/x''), (''path'', Str ''/x''),
                           (''makeAlias'', Fun [])]]),
                (''otherDataSources'', Arr [])]])"
  by code_simp

lemma parseConfig_two_sources:
  "parseConfig (world0\<lparr>YAML_parse := (\<lambda>s. Inr (Obj [(''datasources'',
       Arr [Str ''https://x/y'', Obj [(''url'', Str ''file:///data/a.json''), (''alias'', Str ''a1'')]])]))\<rparr>)
     ''datasources: ...''
   = Inr (Arr [Obj [(''datasources'',
                 Arr [Str ''https://x/y'',
                      Obj [(''url'', Str ''file:///data/a.json''), (''alias'', Str ''a1'')]]),
                (''watch'', Bool False), (''dependencies'', Arr []),
                (''templates'', Arr []), (''files'', Arr []),
                (''fileDataSources'',
                 Arr [Obj [(''url'', Str ''file:///data/a.json''), (''alias'', Str ''a1''),
                           (''path'', Str ''/data/a.json''), (''makeAlias'', Fun [Text ''a1''])]]),
                (''otherDataSources'', Arr [Obj [(''url'', Str ''https://x/y'')]])]])"
  by code_simp

text \<open>
  C8 as stated fails: the data source \<^verbatim>\<open>files://h/x\<close> has the scheme \<^verbatim>\<open>files\<close>, not \<^verbatim>\<open>file\<close>,
  and \<^verbatim>\<open>parseConfig\<close> puts it among the \<^verbatim>\<open>fileDataSources\<close>, with the path \<^verbatim>\<open>/x\<close>.
\<close>

theorem partition_counterexample:
  "parseConfig (world0\<lparr>YAML_parse := (\<lambda>s. Inr (Obj [(''datasources'', Arr [Str ''files://h/x''])]))\<rparr>)
     ''datasources: [files://h/x]''
   = Inr (Arr [Obj [(''datasources'', Arr [Str ''files://h/x'']),
                (''watch'', Bool False), (''dependencies'', Arr []),
                (''templates'', Arr []), (''files'', Arr []),
                (''fileDataSources'',
                 Arr [Obj [(''url'', Str ''files://h/x''), (''path'', Str ''/x''),
                           (''makeAlias'', Fun [])]]),
                (''otherDataSources'', Arr [])]]) \<and>
   URL (world0\<lparr>YAML_parse := (\<lambda>s. Inr (Obj [(''datasources'', Arr [Str ''files://h/x''])]))\<rparr>)
     ''files://h/x'' = Inr \<lparr>protocol = ''files:'', pathname = ''/x''\<rparr> \<and>
   ''files:'' \<noteq> ''file:''"
proof -
  have u: "URL (world0\<lparr>YAML_parse := (\<lambda>s. Inr (Obj [(''datasources'', Arr [Str ''files://h/x''])]))\<rparr>)
     ''files://h/x'' = Inr \<lparr>protocol = ''files:'', pathname = ''/x''\<rparr>"
    by (simp add: world0_def URL_basic_def startsWith_def)
  have n: "''files:'' \<noteq> ''file:''" by simp
  show ?thesis by (intro conjI) (rule parseConfig_files_scheme, rule u, rule n)
qed

text \<open>
  C8, amended. For every item \<^verbatim>\<open>parseConfig\<close> returns, with \<open>datasources\<close> the list of its
  data sources mapped by \<^verbatim>\<open>mapDataSource\<close>: \<^verbatim>\<open>fileDataSources\<close> is the sublist of those that
  have a path and \<^verbatim>\<open>otherDataSources\<close> the sublist of the others, each in the original order,
  and together they hold exactly the elements of \<open>datasources\<close>; a data source has a path
  exactly when the protocol of its URL starts with \<^verbatim>\<open>file\<close>.
\<close>

theorem partition_datasources:
  assumes "parseConfig w conf = Inr (Arr result)" and "item \<in> set result"
  shows "\<exists>kvs ds datasources.
           item = Obj kvs \<and> lookup kvs ''datasources'' = Arr ds \<and>
           map_result (mapDataSource w) ds = Inr datasources \<and>
           lookup kvs ''fileDataSources'' = Arr (filter has_path datasources) \<and>
           lookup kvs ''otherDataSources'' = Arr (filter (\<lambda>d. \<not> has_path d) datasources) \<and>
           set (filter has_path datasources @ filter (\<lambda>d. \<not> has_path d) datasources) = set datasources \<and>
           (\<forall>d \<in> set datasources. \<exists>kvs'. d = Obj kvs' \<and>
              (has_path d \<longleftrightarrow>
                 (\<exists>u. URL w (js_string w (lookup kvs' ''url'')) = Inr u \<and>
                      startsWith (protocol u) ''file'')))"
proof -
  obtain curData where y: "YAML_parse w conf = Inr curData"
    using assms(1) by (cases "YAML_parse w conf") (simp_all add: parseConfig_def)
  obtain errors val where v0: "validate w ConfigSchema [] curData = Inr (errors, val)"
    using assms(1) y by (cases "validate w ConfigSchema [] curData") (auto simp: parseConfig_def)
  have e0: "errors = []"
    using assms(1) y v0 by (cases "errors = []") (simp_all add: parseConfig_def)
  have v: "validate w ConfigSchema [] curData = Inr ([], val)" using v0 e0 by simp
  have m: "array_map (normalize_item w) val = Inr result"
    using assms(1) y v by (cases "array_map (normalize_item w) val") (simp_all add: parseConfig_def)
  have def: "curData \<noteq> Undefined"
  proof
    assume "curData = Undefined"
    then have "val = Undefined" using v by (simp add: validate_ConfigSchema any_check_def)
    then show False using m by (simp add: array_map_def)
  qed
  from ConfigSchema_output [OF v def] obtain ys where ys: "val = Arr ys"
    and valid: "\<forall>y \<in> set ys. \<exists>q x. x \<noteq> Undefined \<and> validate w ConfigItemSchema q x = Inr ([], y)"
    by blast
  have "list_all2 (\<lambda>x y. normalize_item w x = Inr y) ys result"
    using m ys map_result_all2 by (simp add: array_map_def)
  then have la0: "list_all2 (\<lambda>x y. normalize_item w x = Inr y) ys result" .
  from assms(2) obtain i0 where i0: "i0 < length result" "result ! i0 = item"
    by (auto simp: in_set_conv_nth)
  have "length ys = length result" using la0 by (rule list_all2_lengthD)
  then have "ys ! i0 \<in> set ys" using i0(1) by simp
  moreover have "normalize_item w (ys ! i0) = Inr item"
    using list_all2_nthD2 [OF la0 i0(1)] i0(2) by simp
  ultimately obtain y where y0: "y \<in> set ys" "normalize_item w y = Inr item" by blast
  from valid y0(1) obtain q x where "x \<noteq> Undefined" "validate w ConfigItemSchema q x = Inr ([], y)"
    by blast
  from ConfigItemSchema_output [OF this(2,1)] obtain kvs0 ds where
    k0: "y = Obj kvs0" "lookup kvs0 ''datasources'' = Arr ds"
    and dsv: "\<forall>d \<in> set ds. \<exists>p d0. d0 \<noteq> Undefined \<and> validate w DataSourceSchema p d0 = Inr ([], d)"
    by blast
  from normalize_item_fields [OF y0(2) [unfolded k0(1)] k0(2)] obtain kvs datasources where
    n: "item = Obj kvs" "map_result (mapDataSource w) ds = Inr datasources"
       "lookup kvs ''datasources'' = Arr ds"
       "lookup kvs ''fileDataSources'' = Arr (filter has_path datasources)"
       "lookup kvs ''otherDataSources'' = Arr (filter (\<lambda>d. \<not> has_path d) datasources)"
    by blast
  have la: "list_all2 (\<lambda>x y. mapDataSource w x = Inr y) ds datasources"
    using map_result_all2 [OF n(2)] .
  have paths: "\<exists>kvs'. d' = Obj kvs' \<and>
              (has_path d' \<longleftrightarrow>
                 (\<exists>u. URL w (js_string w (lookup kvs' ''url'')) = Inr u \<and>
                      startsWith (protocol u) ''file''))" if "d' \<in> set datasources" for d'
  proof -
    from that obtain i where i: "i < length datasources" "datasources ! i = d'"
      by (auto simp: in_set_conv_nth)
    have len: "length ds = length datasources" using la by (rule list_all2_lengthD)
    have md: "mapDataSource w (ds ! i) = Inr d'" using list_all2_nthD2 [OF la i(1)] i(2) by simp
    have "ds ! i \<in> set ds" using i(1) len by simp
    then obtain p d0 where d0: "d0 \<noteq> Undefined" "validate w DataSourceSchema p d0 = Inr ([], ds ! i)"
      using dsv by blast
    have "(\<exists>s. ds ! i = Str s) \<or> (\<exists>kvs. ds ! i = Obj kvs \<and> ''path'' \<notin> fst ` set kvs)"
      using DataSourceSchema_no_path [OF d0(2,1)] .
    from mapDataSource_path [OF md this] show ?thesis .
  qed
  have S: "set (filter has_path datasources @ filter (\<lambda>d. \<not> has_path d) datasources) = set datasources"
    by auto
  have P: "\<forall>d \<in> set datasources. \<exists>kvs'. d = Obj kvs' \<and>
              (has_path d \<longleftrightarrow>
                 (\<exists>u. URL w (js_string w (lookup kvs' ''url'')) = Inr u \<and>
                      startsWith (protocol u) ''file''))"
    using paths by blast
  show ?thesis
    apply (rule exI [of _ kvs], rule exI [of _ ds], rule exI [of _ datasources])
    using n S P by (intro conjI) assumption+
qed

theorem partition_datasources_witness:
  "\<exists>kvs ds datasources.
     Obj [(''datasources'',
            Arr [Str ''https://x/y'',
                 Obj [(''url'', Str ''file:///data/a.json''), (''alias'', Str ''a1'')]]),
          (''watch'', Bool False), (''dependencies'', Arr []),
          (''templates'', Arr []), (''files'', Arr []),
          (''fileDataSources'',
            Arr [Obj [(''url'', Str ''file:///data/a.json''), (''alias'', Str ''a1''),
                      (''path'', Str ''/data/a.json''), (''makeAlias'', Fun [Text ''a1''])]]),
          (''otherDataSources'', Arr [Obj [(''url'', Str ''https://x/y'')]])] = Obj kvs \<and>
     lookup kvs ''datasources'' = Arr ds \<and>
     map_result (mapDataSource (world0\<lparr>YAML_parse := (\<lambda>s. Inr (Obj [(''datasources'',
       Arr [Str ''https://x/y'', Obj [(''url'', Str ''file:///data/a.json''), (''alias'', Str ''a1'')]])]))\<rparr>)) ds
       = Inr datasources \<and>
     lookup kvs ''fileDataSources'' = Arr (filter has_path datasources) \<and>
     lookup kvs ''otherDataSources'' = Arr (filter (\<lambda>d. \<not> has_path d) datasources)"
  using partition_datasources [OF parseConfig_two_sources, of "Obj [(''datasources'',
            Arr [Str ''https://x/y'',
                 Obj [(''url'', Str ''file:///data/a.json''), (''alias'', Str ''a1'')]]),
          (''watch'', Bool False), (''dependencies'', Arr []),
          (''templates'', Arr []), (''files'', Arr []),
          (''fileDataSources'',
            Arr [Obj [(''url'', Str ''file:///data/a.json''), (''alias'', Str ''a1''),
                      (''path'', Str ''/data/a.json''), (''makeAlias'', Fun [Text ''a1''])]]),
          (''otherDataSources'', Arr [Obj [(''url'', Str ''https://x/y'')]])]"]
  by (simp only: list.set insert_iff simp_thms) blast

section \<open>Aggregation of the violations\<close>

subsection \<open>Where the details of all the violations lie\<close>

lemma inside_item_iff: "inside_item q path \<longleftrightarrow> (\<exists>i rest. path = q @ Idx i # rest)"
  by (induction q path rule: inside_item.induct) auto

lemma placed_any:
  "(\<And>p v. placed p (b p v)) \<Longrightarrow> placed p (any_check req d b p v)"
  by (simp add: any_check_def placed_def)

lemma string_test_path: "d \<in> set (string_test U p s t) \<Longrightarrow> fst d = p"
  by (cases t) (auto split: if_splits)

lemma string_base_path: "string_base U tests p v = Inr (e, x) \<Longrightarrow> d \<in> set e \<Longrightarrow> fst d = p"
  by (cases v) (auto simp: string_base_def dest: string_test_path split: if_splits)

lemma boolean_base_path: "boolean_base p v = Inr (e, x) \<Longrightarrow> d \<in> set e \<Longrightarrow> fst d = p"
  by (cases v) (auto simp: boolean_base_def split: if_splits)

lemma placed_string: "placed p (string_base U tests p v)"
  using string_base_total [of U tests p v] string_base_path [of U tests p v]
  by (fastforce simp: placed_def)

lemma placed_boolean: "placed p (boolean_base p v)"
  using boolean_base_total [of p v] boolean_base_path [of p v]
  by (fastforce simp: placed_def)

lemma placed_alternatives:
  assumes "\<And>s q x. s \<in> set ss \<Longrightarrow> placed q (s q x)" and "\<forall>d \<in> set acc. \<exists>x. fst d = p @ x"
  shows "placed p (try_alternatives ss acc p v)"
  using assms
proof (induction ss arbitrary: acc)
  case Nil
  then show ?case by (auto simp: placed_def)
next
  case (Cons s ss)
  from Cons.prems(1) [of s p v] obtain e x where
    s: "s p v = Inr (e, x)" "\<forall>d \<in> set e. \<exists>y. fst d = p @ y" by (auto simp: placed_def)
  show ?case
  proof (cases "e = []")
    case True
    then show ?thesis using s by (simp add: placed_def)
  next
    case False
    have "placed p (try_alternatives ss (acc @ e) p v)"
      by (rule Cons.IH) (use Cons.prems s(2) in auto)
    then show ?thesis using s False by simp
  qed
qed

lemma placed_keys:
  assumes "\<And>k s q x. (k, s) \<in> set cs \<Longrightarrow> placed q (s q x)"
  shows "\<exists>e t'. check_keys cs p t = Inr (e, t') \<and> (\<forall>d \<in> set e. \<exists>x. fst d = p @ x)"
  using assms
proof (induction cs arbitrary: t)
  case Nil
  then show ?case by simp
next
  case (Cons c cs)
  obtain k s where c: "c = (k, s)" by (cases c)
  from Cons.prems [of k s "p @ [Key k]" "lookup t k"] c obtain e x where
    s: "s (p @ [Key k]) (lookup t k) = Inr (e, x)" "\<forall>d \<in> set e. \<exists>y. fst d = (p @ [Key k]) @ y"
    by (auto simp: placed_def)
  have "\<exists>e' t'. check_keys cs p (if e = [] \<and> x \<noteq> Undefined then assign t k x else t) = Inr (e', t') \<and>
          (\<forall>d \<in> set e'. \<exists>y. fst d = p @ y)"
    by (rule Cons.IH) (use Cons.prems in auto)
  then obtain e' t' where
    r: "check_keys cs p (if e = [] \<and> x \<noteq> Undefined then assign t k x else t) = Inr (e', t')"
       "\<forall>d \<in> set e'. \<exists>y. fst d = p @ y" by blast
  have "\<forall>d \<in> set e. \<exists>y. fst d = p @ y" using s(2) by auto
  then show ?case using c s(1) r by auto
qed

lemma placed_object:
  assumes "\<And>k s q x. (k, s) \<in> set cs \<Longrightarrow> placed q (s q x)"
  shows "placed p (object_base J cs p v)"
proof (cases "object_safeParse J v")
  case (Obj kvs)
  have "\<exists>e t'. check_keys cs p kvs = Inr (e, t') \<and> (\<forall>d \<in> set e. \<exists>x. fst d = p @ x)"
    by (rule placed_keys) (use assms in blast)
  then obtain e t' where
    "check_keys cs p kvs = Inr (e, t')" "\<forall>d \<in> set e. \<exists>x. fst d = p @ x" by blast
  then show ?thesis using Obj by (simp add: object_base_def placed_def)
qed (simp_all add: object_base_def placed_def)

lemma placed_items:
  assumes "\<And>s q x. incl = Some s \<Longrightarrow> placed q (s q x)"
  shows "\<exists>rs. item_results incl wa p i xs = Inr rs \<and>
           (\<forall>d \<in> set (concat (map fst rs)). \<exists>x. fst d = p @ x)"
  using assms
proof (induction xs arbitrary: i)
  case Nil
  then show ?case by simp
next
  case (Cons x xs)
  have ip: "\<exists>y. item_path wa p i = p @ y" by (simp add: item_path_def)
  have "\<exists>e x'. (if x = Undefined then Inr ([(item_path wa p i, ''array.sparse'')], x)
            else case incl of None \<Rightarrow> Inr ([], x) | Some s \<Rightarrow> s (item_path wa p i) x) = Inr (e, x') \<and>
          (\<forall>d \<in> set e. \<exists>y. fst d = p @ y)"
  proof (cases "x = Undefined")
    case True
    then show ?thesis using ip by simp
  next
    case False
    show ?thesis
    proof (cases incl)
      case None
      then show ?thesis using False by simp
    next
      case (Some s)
      from Cons.prems [OF Some, of "item_path wa p i" x] obtain e x' where
        "s (item_path wa p i) x = Inr (e, x')" "\<forall>d \<in> set e. \<exists>y. fst d = item_path wa p i @ y"
        by (auto simp: placed_def)
      moreover have "\<forall>d \<in> set e. \<exists>y. fst d = p @ y"
        using calculation(2) ip by (metis append.assoc)
      ultimately show ?thesis using False Some by simp
    qed
  qed
  then obtain e x' where h: "(if x = Undefined then Inr ([(item_path wa p i, ''array.sparse'')], x)
            else case incl of None \<Rightarrow> Inr ([], x) | Some s \<Rightarrow> s (item_path wa p i) x) = Inr (e, x')"
    "\<forall>d \<in> set e. \<exists>y. fst d = p @ y" by blast
  have "\<exists>rs. item_results incl wa p (Suc i) xs = Inr rs \<and>
           (\<forall>d \<in> set (concat (map fst rs)). \<exists>x. fst d = p @ x)"
    by (rule Cons.IH) (use Cons.prems in blast)
  then obtain rs where
    r: "item_results incl wa p (Suc i) xs = Inr rs" "\<forall>d \<in> set (concat (map fst rs)). \<exists>x. fst d = p @ x"
    by blast
  have "item_results incl wa p i (x # xs) = Inr ((e, if e = [] then x' else x) # rs)"
    using h(1) r(1) by (simp del: item_results.simps add: item_results.simps(2))
  then show ?case using h(2) r(2) by auto
qed

lemma rule_violation_kind:
  "d \<in> set (rule_violation p its t) \<Longrightarrow>
   (snd d = ''array.min'' \<or> snd d = ''array.unique'') \<and> array_of d = p \<and> (\<exists>x. fst d = p @ x)"
  by (cases t) (auto simp: array_of_def split: if_splits)

lemma placed_array_all:
  assumes "\<And>s q x. incl = Some s \<Longrightarrow> placed q (s q x)"
  shows "placed p (array_all J incl sg tests p v)"
proof (cases "case array_safeParse J v of Arr xs \<Rightarrow> Some (True, xs)
              | value \<Rightarrow> if sg then Some (False, [value]) else None")
  case None
  then show ?thesis by (simp add: array_all_def placed_def)
next
  case (Some a)
  obtain wa xs where a: "a = (wa, xs)" by (cases a)
  have "\<exists>rs. item_results incl wa p 0 xs = Inr rs \<and>
           (\<forall>d \<in> set (concat (map fst rs)). \<exists>x. fst d = p @ x)"
    by (rule placed_items) (use assms in blast)
  then obtain rs where rs: "item_results incl wa p 0 xs = Inr rs"
    "\<forall>d \<in> set (concat (map fst rs)). \<exists>x. fst d = p @ x" by blast
  have "\<forall>d \<in> set (concat (map (rule_violation p (map (\<lambda>r. (fst r = [], snd r)) rs)) tests)).
          \<exists>x. fst d = p @ x"
    using rule_violation_kind by fastforce
  then show ?thesis
    unfolding array_all_def Some a using rs by (auto simp: placed_def)
qed

lemma placed_all_violations:
  "\<forall>p v. placed p (all_violations w S p v)" and "\<forall>p v. placed p (all_violations_ty w t p v)"
proof (induction S and t)
  case (Schema req d t)
  then show ?case by (simp add: placed_any)
next
  case (TString tests)
  then show ?case by (simp add: placed_string)
next
  case TBoolean
  then show ?case by (simp add: placed_boolean)
next
  case (TArray incl sg tests)
  have h: "placed q (s q x)" if "map_option (all_violations w) incl = Some s" for s q x
    using that TArray by (cases incl) auto
  show ?case unfolding all_violations_ty.simps
    by (intro allI, rule placed_array_all) (rule h)
next
  case (TObject children)
  have "placed q (s q x)" if "(k, s) \<in> set (map (map_prod id (all_violations w)) children)" for k s q x
  proof -
    from that obtain s0 where "(k, s0) \<in> set children" "s = all_violations w s0" by auto
    then show ?thesis using TObject [of "(k, s0)" s0] by simp
  qed
  then show ?case unfolding all_violations_ty.simps
    by (intro allI, rule placed_object) blast
next
  case (TAlternatives ss)
  have "placed q (s q x)" if "s \<in> set (map (all_violations w) ss)" for s q x
    using that TAlternatives by auto
  then show ?case unfolding all_violations_ty.simps
    by (intro allI, rule placed_alternatives) (blast, simp)
qed

subsection \<open>What is reported against all the violations\<close>

lemma masked_mono: "masked d e \<Longrightarrow> set e \<subseteq> set e' \<Longrightarrow> masked d e'"
  by (auto simp: masked_def list_ex_iff)

lemma covers_refl: "covers e v e v"
  by (simp add: covers_def)

lemma covers_append:
  assumes "covers e1 v1 e2 v2" and "covers f1 u1 f2 u2"
  shows "set (e1 @ f1) \<subseteq> set (e2 @ f2) \<and> (\<forall>d \<in> set (e2 @ f2). d \<in> set (e1 @ f1) \<or> masked d (e1 @ f1))"
proof -
  have "masked d (e1 @ f1)" if "masked d e1" for d using that by (rule masked_mono) simp
  moreover have "masked d (e1 @ f1)" if "masked d f1" for d using that by (rule masked_mono) simp
  ultimately show ?thesis using assms by (auto simp: covers_def)
qed

lemma covers_empty: "covers [] v1 e2 v2 \<Longrightarrow> e2 = [] \<and> v1 = v2"
  by (cases e2) (auto simp: covers_def masked_def)

lemma covers_nonempty: "covers e1 v1 e2 v2 \<Longrightarrow> e1 \<noteq> [] \<Longrightarrow> e2 \<noteq> []"
  by (auto simp: covers_def)

lemma related_any: "related b1 b2 \<Longrightarrow> related (any_check req d b1) (any_check req d b2)"
  unfolding related_def any_check_def by (auto simp: covers_refl)

lemma related_refl: "related s s"
  by (simp add: related_def covers_refl)

lemma covers_alternatives:
  assumes "list_all2 related ss1 ss2"
    and "set acc1 \<subseteq> set acc2" and "\<forall>d \<in> set acc2. d \<in> set acc1 \<or> masked d acc1"
    and "try_alternatives ss1 acc1 p v = Inr (e1, v1)"
    and "try_alternatives ss2 acc2 p v = Inr (e2, v2)"
  shows "covers e1 v1 e2 v2"
  using assms
proof (induction ss1 ss2 arbitrary: acc1 acc2 rule: list_all2_induct)
  case Nil
  have "acc2 = []" if "acc1 = []"
  proof (cases acc2)
    case (Cons d ds)
    then have "masked d []" using Nil.prems(2) that by auto
    then show ?thesis by (simp add: masked_def)
  qed simp
  moreover have "acc1 = []" if "acc2 = []" using Nil.prems(1) that by simp
  ultimately have eq: "acc1 = [] \<longleftrightarrow> acc2 = []" by blast
  show ?case
  proof (cases "acc1 = []")
    case True
    then show ?thesis using Nil.prems eq by (auto simp: covers_def)
  next
    case False
    then show ?thesis using Nil.prems eq by (auto simp: covers_def)
  qed
next
  case (Cons s1 ss1 s2 ss2)
  from Cons.prems(3) obtain f1 u1 where s1: "s1 p v = Inr (f1, u1)"
    by (cases "s1 p v") auto
  from Cons.prems(4) obtain f2 u2 where s2: "s2 p v = Inr (f2, u2)"
    by (cases "s2 p v") auto
  have c: "covers f1 u1 f2 u2" using Cons.hyps(1) s1 s2 by (auto simp: related_def)
  show ?case
  proof (cases "f1 = []")
    case True
    then have "f2 = []" "u1 = u2" using c covers_empty by blast+
    then show ?thesis using Cons.prems(3,4) s1 s2 True by (simp add: covers_def)
  next
    case False
    then have ne2: "f2 \<noteq> []" using c covers_nonempty by blast
    have r1: "try_alternatives ss1 (acc1 @ f1) p v = Inr (e1, v1)"
      using Cons.prems(3) s1 False by simp
    have r2: "try_alternatives ss2 (acc2 @ f2) p v = Inr (e2, v2)"
      using Cons.prems(4) s2 ne2 by simp
    have a: "covers acc1 Undefined acc2 Undefined"
      using Cons.prems(1,2) by (simp add: covers_def)
    from covers_append [OF a c] show ?thesis
      using Cons.IH [OF _ _ r1 r2] by blast
  qed
qed

lemma related_alternatives:
  assumes "list_all2 related ss1 ss2"
  shows "related (try_alternatives ss1 []) (try_alternatives ss2 [])"
proof -
  have "covers e1 v1 e2 v2"
    if "try_alternatives ss1 [] p v = Inr (e1, v1)" "try_alternatives ss2 [] p v = Inr (e2, v2)"
    for p v e1 v1 e2 v2
    using covers_alternatives [OF assms _ _ that] by simp
  then show ?thesis unfolding related_def by blast
qed

lemma covers_keys:
  assumes "list_all2 (\<lambda>c1 c2. fst c1 = fst c2 \<and> related (snd c1) (snd c2)) cs1 cs2"
    and "check_keys cs1 p t = Inr (e1, t1)" and "check_keys cs2 p t = Inr (e2, t2)"
  shows "t1 = t2 \<and> set e1 \<subseteq> set e2 \<and> (\<forall>d \<in> set e2. d \<in> set e1 \<or> masked d e1)"
  using assms
proof (induction cs1 cs2 arbitrary: t e1 e2 rule: list_all2_induct)
  case Nil
  then show ?case by simp
next
  case (Cons c1 cs1 c2 cs2)
  obtain k s1 where c1: "c1 = (k, s1)" by (cases c1)
  obtain s2 where c2: "c2 = (k, s2)" using Cons.hyps(1) c1 by (cases c2) auto
  have rel: "related s1 s2" using Cons.hyps(1) c1 c2 by simp
  from Cons.prems(1) c1 obtain f1 u1 where s1: "s1 (p @ [Key k]) (lookup t k) = Inr (f1, u1)"
    by (cases "s1 (p @ [Key k]) (lookup t k)") auto
  from Cons.prems(2) c2 obtain f2 u2 where s2: "s2 (p @ [Key k]) (lookup t k) = Inr (f2, u2)"
    by (cases "s2 (p @ [Key k]) (lookup t k)") auto
  have c: "covers f1 u1 f2 u2" using rel s1 s2 by (auto simp: related_def)
  have same: "(if f1 = [] \<and> u1 \<noteq> Undefined then assign t k u1 else t) =
              (if f2 = [] \<and> u2 \<noteq> Undefined then assign t k u2 else t)"
  proof (cases "f1 = []")
    case True
    then show ?thesis using c covers_empty by fastforce
  next
    case False
    then show ?thesis using c covers_nonempty by fastforce
  qed
  from Cons.prems(1) c1 s1 obtain g1 where
    r1: "check_keys cs1 p (if f1 = [] \<and> u1 \<noteq> Undefined then assign t k u1 else t) = Inr (g1, t1)"
    and e1: "e1 = f1 @ g1"
    by (auto split: sum.splits prod.splits)
  from Cons.prems(2) c2 s2 obtain g2 where
    r2: "check_keys cs2 p (if f2 = [] \<and> u2 \<noteq> Undefined then assign t k u2 else t) = Inr (g2, t2)"
    and e2: "e2 = f2 @ g2"
    by (auto split: sum.splits prod.splits)
  from Cons.IH [OF r1 r2 [folded same]]
  have ih: "t1 = t2" "set g1 \<subseteq> set g2" "\<forall>d \<in> set g2. d \<in> set g1 \<or> masked d g1" by auto
  have g: "covers g1 Undefined g2 Undefined" using ih by (simp add: covers_def)
  from covers_append [OF c g] show ?case using ih(1) e1 e2 by simp
qed

lemma related_object:
  assumes "list_all2 (\<lambda>c1 c2. fst c1 = fst c2 \<and> related (snd c1) (snd c2)) cs1 cs2"
  shows "related (object_base J cs1) (object_base J cs2)"
  unfolding related_def
proof (intro allI impI)
  fix p v e1 v1 e2 v2
  assume r1: "object_base J cs1 p v = Inr (e1, v1)" and r2: "object_base J cs2 p v = Inr (e2, v2)"
  have keys: "map fst cs1 = map fst cs2"
    using assms by (induction rule: list_all2_induct) auto
  show "covers e1 v1 e2 v2"
  proof (cases "object_safeParse J v")
    case (Obj kvs)
    from r1 Obj obtain t1 where k1: "check_keys cs1 p kvs = Inr (e1, t1)"
      and v1: "v1 = Obj (filter (\<lambda>kv. fst kv \<in> set (map fst cs1)) t1)"
      by (auto simp: object_base_def split: sum.splits prod.splits)
    from r2 Obj obtain t2 where k2: "check_keys cs2 p kvs = Inr (e2, t2)"
      and v2: "v2 = Obj (filter (\<lambda>kv. fst kv \<in> set (map fst cs2)) t2)"
      by (auto simp: object_base_def split: sum.splits prod.splits)
    from covers_keys [OF assms k1 k2] show ?thesis
      using v1 v2 keys by (simp add: covers_def)
  qed (use r1 r2 in \<open>auto simp: object_base_def covers_refl\<close>)
qed

subsection \<open>The items and the rules of an array\<close>

lemma item_results_inside:
  assumes "\<forall>s q x. incl = Some s \<longrightarrow> placed q (s q x)"
    and "item_results incl True p i xs = Inr rs"
  shows "\<forall>d \<in> set (concat (map fst rs)). inside_item p (fst d)"
  using assms(2)
proof (induction xs arbitrary: i rs)
  case Nil
  then show ?case by simp
next
  case (Cons x xs)
  from Cons.prems obtain f u rs' where
    h: "(if x = Undefined then Inr ([(item_path True p i, ''array.sparse'')], x)
         else case incl of None \<Rightarrow> Inr ([], x) | Some s \<Rightarrow> s (item_path True p i) x) = Inr (f, u)"
    and r: "item_results incl True p (Suc i) xs = Inr rs'"
    and rs: "rs = (f, if f = [] then u else x) # rs'"
    by (auto split: sum.splits prod.splits)
  have "\<forall>d \<in> set f. inside_item p (fst d)"
  proof (cases "x = Undefined")
    case True
    then show ?thesis using h by (auto simp: item_path_def inside_item_iff)
  next
    case False
    show ?thesis
    proof (cases incl)
      case None
      then show ?thesis using h False by auto
    next
      case (Some s)
      then have "s (p @ [Idx i]) x = Inr (f, u)" using h False by (simp add: item_path_def)
      moreover have "placed (p @ [Idx i]) (s (p @ [Idx i]) x)" using assms(1) Some by blast
      ultimately have "\<forall>d \<in> set f. \<exists>y. fst d = (p @ [Idx i]) @ y" by (auto simp: placed_def)
      then show ?thesis by (auto simp: inside_item_iff)
    qed
  qed
  then show ?case using Cons.IH [OF r] rs by auto
qed

lemma covers_items:
  assumes "rel_option related incl1 incl2"
    and "check_items incl1 wa p i xs = Inr (e1, ys)" and "item_results incl2 wa p i xs = Inr rs"
  shows "set e1 \<subseteq> set (concat (map fst rs)) \<and>
         (\<forall>d \<in> set (concat (map fst rs)). d \<in> set e1 \<or> masked d e1) \<and>
         (e1 = [] \<longrightarrow> ys = map snd rs \<and> (\<forall>r \<in> set rs. fst r = []))"
  using assms(2,3)
proof (induction xs arbitrary: i e1 ys rs)
  case Nil
  then show ?case by simp
next
  case (Cons x xs)
  let ?q = "item_path wa p i"
  from Cons.prems(1) obtain f1 u1 g1 ys' where
    h1: "(if x = Undefined then Inr ([(?q, ''array.sparse'')], x)
          else case incl1 of None \<Rightarrow> Inr ([], x) | Some s \<Rightarrow> s ?q x) = Inr (f1, u1)"
    and r1: "check_items incl1 wa p (Suc i) xs = Inr (g1, ys')"
    and e1: "e1 = f1 @ g1" and ys: "ys = (if f1 = [] then u1 else x) # ys'"
    by (auto split: sum.splits prod.splits)
  from Cons.prems(2) obtain f2 u2 rs' where
    h2: "(if x = Undefined then Inr ([(?q, ''array.sparse'')], x)
          else case incl2 of None \<Rightarrow> Inr ([], x) | Some s \<Rightarrow> s ?q x) = Inr (f2, u2)"
    and r2: "item_results incl2 wa p (Suc i) xs = Inr rs'"
    and rs: "rs = (f2, if f2 = [] then u2 else x) # rs'"
    by (auto split: sum.splits prod.splits)
  have c: "covers f1 u1 f2 u2"
  proof (cases "x = Undefined")
    case True
    then show ?thesis using h1 h2 by (auto simp: covers_refl)
  next
    case False
    from assms(1) show ?thesis
    proof (cases rule: option.rel_cases)
      case None
      then show ?thesis using h1 h2 False by (auto simp: covers_refl)
    next
      case (Some s1 s2)
      then show ?thesis using h1 h2 False by (auto simp: related_def)
    qed
  qed
  from Cons.IH [OF r1 r2] have ih:
    "set g1 \<subseteq> set (concat (map fst rs'))"
    "\<forall>d \<in> set (concat (map fst rs')). d \<in> set g1 \<or> masked d g1"
    "g1 = [] \<longrightarrow> ys' = map snd rs' \<and> (\<forall>r \<in> set rs'. fst r = [])" by auto
  have g: "covers g1 Undefined (concat (map fst rs')) Undefined" using ih(1,2) by (simp add: covers_def)
  from covers_append [OF c g] have
    "set e1 \<subseteq> set (concat (map fst rs)) \<and> (\<forall>d \<in> set (concat (map fst rs)). d \<in> set e1 \<or> masked d e1)"
    using e1 rs by simp
  moreover have "ys = map snd rs \<and> (\<forall>r \<in> set rs. fst r = [])" if "e1 = []"
  proof -
    have "f1 = []" "g1 = []" using that e1 by simp_all
    then have "f2 = []" "u1 = u2" using c covers_empty by blast+
    then show ?thesis using ih(3) \<open>g1 = []\<close> \<open>f1 = []\<close> ys rs by simp
  qed
  ultimately show ?case by blast
qed

lemma find_dupe_list_ex:
  "find_dupe cmp records item = Inr b \<Longrightarrow> b = list_ex (\<lambda>r. cmp r item = Inr True) records"
  by (induction records) (auto split: sum.splits if_splits)

lemma unique_scan_duplicates:
  "unique_scan cmp records i ys = Inr r \<Longrightarrow>
   (case r of
      None \<Rightarrow> duplicates cmp records i (map (Pair True) ys) = []
    | Some n \<Rightarrow> \<exists>rest. duplicates cmp records i (map (Pair True) ys) = n # rest)"
proof (induction ys arbitrary: records i)
  case Nil
  then show ?case by auto
next
  case (Cons y ys)
  from Cons.prems obtain b where b: "find_dupe cmp records y = Inr b"
    by (cases "find_dupe cmp records y") auto
  then have l: "list_ex (\<lambda>r. cmp r y = Inr True) records = b" using find_dupe_list_ex by blast
  show ?case
  proof (cases b)
    case True
    then show ?thesis using Cons.prems b l by auto
  next
    case False
    then have "unique_scan cmp (records @ [y]) (Suc i) ys = Inr r" using Cons.prems b by simp
    from Cons.IH [OF this] show ?thesis using False l by (cases r) simp_all
  qed
qed

lemma array_test_covers:
  assumes "array_test p ys t = Inr e"
  shows "set e \<subseteq> set (rule_violation p (map (Pair True) ys) t) \<and>
         (\<forall>d \<in> set (rule_violation p (map (Pair True) ys) t). d \<in> set e \<or> masked d e)"
proof (cases t)
  case (Min n)
  then show ?thesis using assms by auto
next
  case (Unique cmp)
  from assms obtain r where r: "unique_scan cmp [] 0 ys = Inr r"
    using Unique by (cases "unique_scan cmp [] 0 ys") auto
  show ?thesis
  proof (cases r)
    case None
    then have "duplicates cmp [] 0 (map (Pair True) ys) = []"
      using unique_scan_duplicates [OF r] by simp
    then show ?thesis using assms Unique r None by simp
  next
    case (Some n)
    then obtain rest where d: "duplicates cmp [] 0 (map (Pair True) ys) = n # rest"
      using unique_scan_duplicates [OF r] by auto
    have e: "e = [(p @ [Idx n], ''array.unique'')]" using assms Unique r Some by simp
    have "d \<in> set e \<or> masked d e" if "d \<in> set (rule_violation p (map (Pair True) ys) t)" for d
    proof (cases "d = (p @ [Idx n], ''array.unique'')")
      case True
      then show ?thesis using e by simp
    next
      case False
      from that obtain m where "d = (p @ [Idx m], ''array.unique'')" using Unique by auto
      then show ?thesis using False e by (simp add: masked_def array_of_def)
    qed
    then show ?thesis using e d Unique by auto
  qed
qed

lemma array_tests_covers:
  "array_tests p ys tests = Inr e \<Longrightarrow>
   set e \<subseteq> set (concat (map (rule_violation p (map (Pair True) ys)) tests)) \<and>
   (\<forall>d \<in> set (concat (map (rule_violation p (map (Pair True) ys)) tests)). d \<in> set e \<or> masked d e)"
proof (induction tests arbitrary: e)
  case Nil
  then show ?case by simp
next
  case (Cons t tests)
  from Cons.prems obtain e1 e2 where
    h: "array_test p ys t = Inr e1" "array_tests p ys tests = Inr e2" "e = e1 @ e2"
    by (auto split: sum.splits)
  have c1: "covers e1 Undefined (rule_violation p (map (Pair True) ys) t) Undefined"
    using array_test_covers [OF h(1)] by (simp add: covers_def)
  have c2: "covers e2 Undefined (concat (map (rule_violation p (map (Pair True) ys)) tests)) Undefined"
    using Cons.IH [OF h(2)] by (simp add: covers_def)
  from covers_append [OF c1 c2] show ?case using h(3) by simp
qed

lemma covers_true_array:
  assumes rel: "rel_option related incl1 incl2"
    and pl: "\<forall>s q x. incl2 = Some s \<longrightarrow> placed q (s q x)"
    and arr: "array_safeParse J v = Arr xs"
    and second: "sg \<Longrightarrow> \<forall>ys f zs. check_items incl1 True p 0 [Arr ys] = Inr (f, zs) \<longrightarrow> f \<noteq> []"
    and r1: "array_base J incl1 sg tests p v = Inr (e1, v1)"
    and r2: "array_all J incl2 sg tests p v = Inr (e2, v2)"
  shows "covers e1 v1 e2 v2"
proof -
  from r1 arr obtain f1 ys where c1: "check_items incl1 True p 0 xs = Inr (f1, ys)"
    by (cases "check_items incl1 True p 0 xs") (auto simp: array_base_def)
  from r2 arr obtain rs where c2: "item_results incl2 True p 0 xs = Inr rs"
    and e2: "e2 = concat (map fst rs) @
                  concat (map (rule_violation p (map (\<lambda>r. (fst r = [], snd r)) rs)) tests)"
    and v2: "v2 = Arr (map snd rs)"
    by (cases "item_results incl2 True p 0 xs") (auto simp: array_all_def)
  from covers_items [OF rel c1 c2] have ci:
    "set f1 \<subseteq> set (concat (map fst rs))"
    "\<forall>d \<in> set (concat (map fst rs)). d \<in> set f1 \<or> masked d f1"
    "f1 = [] \<longrightarrow> ys = map snd rs \<and> (\<forall>r \<in> set rs. fst r = [])" by auto
  show ?thesis
  proof (cases "f1 = []")
    case True
    then have ys: "ys = map snd rs" and ok: "\<forall>r \<in> set rs. fst r = []" using ci(3) by auto
    have none: "concat (map fst rs) = []" using ok by simp
    have flags: "map (\<lambda>r. (fst r = [], snd r)) rs = map (Pair True) ys"
      using ok ys by (induction rs arbitrary: ys) auto
    have "run_array_tests p ys tests = Inr (e1, v1)"
      using r1 arr c1 True by (simp add: array_base_def)
    then obtain t: "array_tests p ys tests = Inr e1" and "v1 = Arr ys"
      by (auto simp: run_array_tests_def split: sum.splits)
    then show ?thesis
      using array_tests_covers [OF t] e2 v2 none flags ys
      by (simp add: covers_def)
  next
    case False
    have "e1 = f1"
    proof (cases sg)
      case True
      obtain f zs where "check_items incl1 True p 0 [Arr ys] = Inr (f, zs)"
        using r1 arr c1 False True
        by (cases "check_items incl1 True p 0 [Arr ys]") (auto simp: array_base_def simp del: check_items.simps)
      moreover from this have "f \<noteq> []" using second [OF True] by blast
      ultimately show ?thesis using r1 arr c1 False True
        by (simp add: array_base_def del: check_items.simps)
    next
      case False
      then show ?thesis using r1 arr c1 \<open>f1 \<noteq> []\<close> by (simp add: array_base_def)
    qed
    obtain d0 where d0: "d0 \<in> set f1" using False by (cases f1) auto
    then have "d0 \<in> set (concat (map fst rs))" using ci(1) by blast
    then have in0: "inside_item p (fst d0)" using item_results_inside [OF pl c2] by blast
    have "masked d e1"
      if "d \<in> set (concat (map (rule_violation p (map (\<lambda>r. (fst r = [], snd r)) rs)) tests))" for d
    proof -
      from that obtain t where "d \<in> set (rule_violation p (map (\<lambda>r. (fst r = [], snd r)) rs) t)"
        by auto
      from rule_violation_kind [OF this] show ?thesis
        using d0 in0 \<open>e1 = f1\<close> by (auto simp: masked_def list_ex_iff)
    qed
    then show ?thesis using ci(1,2) e2 False \<open>e1 = f1\<close> by (auto simp: covers_def)
  qed
qed

lemma related_array:
  assumes "rel_option related incl1 incl2" and "\<forall>s q x. incl2 = Some s \<longrightarrow> placed q (s q x)"
  shows "related (array_base J incl1 False tests) (array_all J incl2 False tests)"
  unfolding related_def
proof (intro allI impI)
  fix p v e1 v1 e2 v2
  assume r1: "array_base J incl1 False tests p v = Inr (e1, v1)"
    and r2: "array_all J incl2 False tests p v = Inr (e2, v2)"
  show "covers e1 v1 e2 v2"
  proof (cases "array_safeParse J v")
    case (Arr xs)
    show ?thesis by (rule covers_true_array [OF assms(1) assms(2) Arr _ r1 r2]) simp_all
  qed (use r1 r2 in \<open>auto simp: array_base_def array_all_def covers_refl\<close>)
qed

subsection \<open>Every schema, and the schema of the document\<close>

lemma related_all:
  "no_single S \<longrightarrow> related (validate w S) (all_violations w S)"
  and "no_single_ty t \<longrightarrow> related (validate_ty w t) (all_violations_ty w t)"
proof (induction S and t)
  case (Schema req d t)
  then show ?case by (simp add: related_any)
next
  case (TString tests)
  then show ?case by (simp add: related_refl)
next
  case TBoolean
  then show ?case by (simp add: related_refl)
next
  case (TArray incl sg tests)
  show ?case
  proof
    assume n: "no_single_ty (TArray incl sg tests)"
    then have sg: "\<not> sg" by simp
    have rel: "rel_option related (map_option (validate w) incl) (map_option (all_violations w) incl)"
    proof (cases incl)
      case None
      then show ?thesis by simp
    next
      case (Some s)
      then have "no_single s" using n by simp
      then show ?thesis using TArray [of s] Some by simp
    qed
    have pl: "\<forall>s q x. map_option (all_violations w) incl = Some s \<longrightarrow> placed q (s q x)"
      using placed_all_violations(1) by (cases incl) auto
    show "related (validate_ty w (TArray incl sg tests)) (all_violations_ty w (TArray incl sg tests))"
      using related_array [OF rel pl] sg by simp
  qed
next
  case (TObject children)
  show ?case
  proof
    assume n: "no_single_ty (TObject children)"
    have each: "related (validate w s) (all_violations w s)" if "(k, s) \<in> set children" for k s
    proof -
      have "no_single s" using n that by (auto simp: list_all_iff)
      then show ?thesis using TObject [of "(k, s)" s] that by simp
    qed
    have "list_all2 (\<lambda>c1 c2. fst c1 = fst c2 \<and> related (snd c1) (snd c2))
            (map (map_prod id (validate w)) children) (map (map_prod id (all_violations w)) children)"
      using each by (auto simp: list_all2_map1 list_all2_map2 list_all2_same)
    then show "related (validate_ty w (TObject children)) (all_violations_ty w (TObject children))"
      by (simp add: related_object)
  qed
next
  case (TAlternatives ss)
  show ?case
  proof
    assume n: "no_single_ty (TAlternatives ss)"
    have each: "related (validate w s) (all_violations w s)" if "s \<in> set ss" for s
    proof -
      have "no_single s" using n that by (auto simp: list_all_iff)
      then show ?thesis using TAlternatives that by simp
    qed
    have "list_all2 related (map (validate w) ss) (map (all_violations w) ss)"
      using each by (auto simp: list_all2_map1 list_all2_map2 list_all2_same)
    then show "related (validate_ty w (TAlternatives ss)) (all_violations_ty w (TAlternatives ss))"
      by (simp add: related_alternatives)
  qed
qed

lemma no_single_ConfigItemSchema: "no_single ConfigItemSchema"
  by (simp add: ConfigItemSchema_def FilePathSchema_def DataSourceSchema_def FileSchema_def
      onChangeSchema_def onChangeCmdSchema_def argsSchema_def Joi_object_def Joi_array_def
      Joi_string_def Joi_boolean_def Joi_alternatives_try_def)

lemma related_ConfigItemSchema:
  "related (validate w ConfigItemSchema) (all_violations w ConfigItemSchema)"
  using related_all(1) no_single_ConfigItemSchema by blast

lemma all_violations_ConfigSchema:
  "all_violations w ConfigSchema =
     any_check False None (array_all (JSON_parse w) (Some (all_violations w ConfigItemSchema)) True [Min 1])"
  by (simp add: ConfigSchema_def Joi_array_def)

lemma ConfigSchema_total: "\<exists>r. validate w ConfigSchema q x = Inr r"
  unfolding validate_ConfigSchema
  by (rule any_check_total, rule array_base_min_total) (use ConfigItemSchema_total in auto)

lemma covers_ConfigSchema:
  assumes r1: "validate w ConfigSchema [] doc = Inr (e1, v1)"
    and r2: "all_violations w ConfigSchema [] doc = Inr (e2, v2)"
  shows "covers e1 v1 e2 v2"
proof (cases "doc = Undefined")
  case True
  then show ?thesis using r1 r2
    by (simp add: validate_ConfigSchema all_violations_ConfigSchema any_check_def covers_refl)
next
  case False
  let ?J = "JSON_parse w"
  let ?I1 = "validate w ConfigItemSchema"
  let ?I2 = "all_violations w ConfigItemSchema"
  have b1: "array_base ?J (Some ?I1) True [Min 1] [] doc = Inr (e1, v1)"
    using r1 False by (simp add: validate_ConfigSchema any_check_defined)
  have b2: "array_all ?J (Some ?I2) True [Min 1] [] doc = Inr (e2, v2)"
    using r2 False by (simp add: all_violations_ConfigSchema any_check_defined)
  have rel: "rel_option related (Some ?I1) (Some ?I2)"
    by (simp add: related_ConfigItemSchema)
  have pl: "\<forall>s q x. Some ?I2 = Some s \<longrightarrow> placed q (s q x)"
    using placed_all_violations(1) by auto
  show ?thesis
  proof (cases "\<exists>xs. array_safeParse ?J doc = Arr xs")
    case True
    then obtain xs where arr: "array_safeParse ?J doc = Arr xs" by blast
    have second: "\<forall>ys f zs. check_items (Some ?I1) True [] 0 [Arr ys] = Inr (f, zs) \<longrightarrow> f \<noteq> []"
      by (auto simp: ConfigItemSchema_not_object)
    show ?thesis by (rule covers_true_array [OF rel pl arr second b1 b2])
  next
    case False
    define val where "val = array_safeParse ?J doc"
    have na: "\<forall>xs. val \<noteq> Arr xs" using False by (simp add: val_def)
    have vd: "val = doc"
      using na unfolding val_def array_safeParse_def
      by (auto split: option.splits jsv.splits)
    have def: "doc \<noteq> Undefined" by fact
    obtain f1 u1 where i1: "?I1 [] doc = Inr (f1, u1)"
      using ConfigItemSchema_total [of w "[]" doc] by fastforce
    obtain f2 u2 where i2: "?I2 [] doc = Inr (f2, u2)"
      using placed_all_violations(1) [of w ConfigItemSchema] by (fastforce simp: placed_def)
    have c: "covers f1 u1 f2 u2"
      using related_ConfigItemSchema i1 i2 by (auto simp: related_def)
    have w1: "array_base ?J (Some ?I1) True [Min 1] [] doc =
                (if f1 = [] then Inr ([], Arr [u1]) else Inr (f1, Arr [doc]))"
      using na def i1 unfolding array_base_def val_def [symmetric] vd
      by (cases doc) (simp_all add: item_path_def run_array_tests_def)
    have w2: "array_all ?J (Some ?I2) True [Min 1] [] doc =
                Inr (f2, Arr [if f2 = [] then u2 else doc])"
      using na def i2 unfolding array_all_def val_def [symmetric] vd
      by (cases doc) (simp_all add: item_path_def)
    show ?thesis
    proof (cases "f1 = []")
      case True
      then have "f2 = []" "u1 = u2" using c covers_empty by blast+
      then show ?thesis using b1 b2 w1 w2 True by (simp add: covers_def)
    next
      case False
      then show ?thesis using b1 b2 w1 w2 c by (auto simp: covers_def)
    qed
  qed
qed

text \<open>
  C7 as stated fails. In the first document the \<^verbatim>\<open>datasources\<close> of the item hold the number
  5 and twice the same URL. The error \<^verbatim>\<open>parseConfig\<close> throws reports the two violations of
  the number (neither a string nor an object) and nothing about the duplicate, which is
  one of the violations of the document and which the comparator of the module does find:
  an array whose items are not all valid does not reach its rule \<^verbatim>\<open>unique\<close>. In the second
  document the \<^verbatim>\<open>datasources\<close> hold two URLs twice each, and the error reports the first
  duplicate only: the rule \<^verbatim>\<open>unique\<close> stops at the first duplicate it finds.
\<close>

theorem validation_aggregates_counterexample:
  "parseConfig (world0\<lparr>YAML_parse := (\<lambda>s. Inr (Arr [Obj [(''datasources'',
       Arr [Num 5, Str ''https://x/y'', Str ''https://x/y''])]]))\<rparr>)
     ''- datasources: [5, https://x/y, https://x/y]''
   = Inl (ValidationError
       [([Idx 0, Key ''datasources'', Idx 0], ''string.base''),
        ([Idx 0, Key ''datasources'', Idx 0], ''object.base'')]) \<and>
   all_violations (world0\<lparr>YAML_parse := (\<lambda>s. Inr (Arr [Obj [(''datasources'',
       Arr [Num 5, Str ''https://x/y'', Str ''https://x/y''])]]))\<rparr>) ConfigSchema []
     (Arr [Obj [(''datasources'', Arr [Num 5, Str ''https://x/y'', Str ''https://x/y''])]])
   = Inr ([([Idx 0, Key ''datasources'', Idx 0], ''string.base''),
           ([Idx 0, Key ''datasources'', Idx 0], ''object.base''),
           ([Idx 0, Key ''datasources'', Idx 2], ''array.unique'')],
          Arr [Obj [(''datasources'', Arr [Num 5, Str ''https://x/y'', Str ''https://x/y''])]]) \<and>
   checkUniqueField ''url'' (Str ''https://x/y'') (Str ''https://x/y'') = Inr True \<and>
   parseConfig (world0\<lparr>YAML_parse := (\<lambda>s. Inr (Arr [Obj [(''datasources'',
       Arr [Str ''https://x/y'', Str ''https://x/y'', Str ''https://x/z'', Str ''https://x/z''])]]))\<rparr>)
     ''- datasources: [https://x/y, https://x/y, https://x/z, https://x/z]''
   = Inl (ValidationError [([Idx 0, Key ''datasources'', Idx 1], ''array.unique'')]) \<and>
   all_violations (world0\<lparr>YAML_parse := (\<lambda>s. Inr (Arr [Obj [(''datasources'',
       Arr [Str ''https://x/y'', Str ''https://x/y'', Str ''https://x/z'', Str ''https://x/z''])]]))\<rparr>)
     ConfigSchema []
     (Arr [Obj [(''datasources'',
       Arr [Str ''https://x/y'', Str ''https://x/y'', Str ''https://x/z'', Str ''https://x/z''])]])
   = Inr ([([Idx 0, Key ''datasources'', Idx 1], ''array.unique''),
           ([Idx 0, Key ''datasources'', Idx 3], ''array.unique'')],
          Arr [Obj [(''datasources'',
            Arr [Str ''https://x/y'', Str ''https://x/y'', Str ''https://x/z'', Str ''https://x/z''])]]) \<and>
   checkUniqueField ''url'' (Str ''https://x/z'') (Str ''https://x/z'') = Inr True"
  by code_simp

text \<open>
  C7, amended. For every document, \<^verbatim>\<open>parseConfig\<close> passes the validation exactly when the
  document has no violation, and it then goes on with the validated value. When the
  document has violations, \<^verbatim>\<open>parseConfig\<close> throws one validation error; every detail of the
  error is a violation of the document, and every violation of the document is a detail
  of the error, with two exceptions, both about the rules of an array (\<^verbatim>\<open>min\<close>, \<^verbatim>\<open>unique\<close>): the
  violation of such a rule is left out when the error reports a violation inside an item
  of that array, and a duplicate is left out when the error reports another duplicate of
  the same array.
\<close>

theorem validation_aggregates:
  assumes "YAML_parse w conf = Inr doc"
  shows "\<exists>violations val.
           all_violations w ConfigSchema [] doc = Inr (violations, val) \<and>
           (violations = [] \<longrightarrow>
              parseConfig w conf =
                (case array_map (normalize_item w) val of
                   Inl e \<Rightarrow> Inl e | Inr normalized \<Rightarrow> Inr (Arr normalized))) \<and>
           (violations \<noteq> [] \<longrightarrow>
              (\<exists>details. parseConfig w conf = Inl (ValidationError details) \<and> details \<noteq> [] \<and>
                 set details \<subseteq> set violations \<and>
                 (\<forall>d \<in> set violations. d \<in> set details \<or> masked d details)))"
proof -
  obtain e2 v2 where r2: "all_violations w ConfigSchema [] doc = Inr (e2, v2)"
    using placed_all_violations(1) [of w ConfigSchema] by (fastforce simp: placed_def)
  obtain e1 v1 where r1: "validate w ConfigSchema [] doc = Inr (e1, v1)"
    using ConfigSchema_total [of w "[]" doc] by fastforce
  have c: "covers e1 v1 e2 v2" using covers_ConfigSchema [OF r1 r2] .
  have a: "parseConfig w conf =
             (case array_map (normalize_item w) v2 of
                Inl e \<Rightarrow> Inl e | Inr normalized \<Rightarrow> Inr (Arr normalized))" if "e2 = []"
  proof -
    have "e1 = []" "v1 = v2" using c that by (auto simp: covers_def)
    then show ?thesis using assms r1 by (simp add: parseConfig_def)
  qed
  have b: "\<exists>details. parseConfig w conf = Inl (ValidationError details) \<and> details \<noteq> [] \<and>
             set details \<subseteq> set e2 \<and> (\<forall>d \<in> set e2. d \<in> set details \<or> masked d details)"
    if "e2 \<noteq> []"
  proof -
    have ne: "e1 \<noteq> []" using c that covers_empty by blast
    then have "parseConfig w conf = Inl (ValidationError e1)"
      using assms r1 by (simp add: parseConfig_def)
    then show ?thesis using ne c by (auto simp: covers_def)
  qed
  show ?thesis using r2 a b by blast
qed

theorem validation_aggregates_witness:
  "\<exists>details.
     parseConfig (world0\<lparr>YAML_parse := (\<lambda>s. Inr (Arr
        [Obj [(''watch'', Num 3), (''args'', Arr []),
              (''datasources'', Arr [Obj [(''alias'', Str ''a-b'')]])],
         Num 7]))\<rparr>)
       ''[{watch: 3, args: [], datasources: [{alias: a-b}]}, 7]''
     = Inl (ValidationError details) \<and>
     ([Idx 0, Key ''watch''], ''boolean.base'') \<in> set details \<and>
     ([Idx 0, Key ''datasources'', Idx 0, Key ''url''], ''any.required'') \<in> set details \<and>
     ([Idx 0, Key ''datasources'', Idx 0, Key ''alias''], ''string.alphanum'') \<in> set details \<and>
     ([Idx 0, Key ''args''], ''array.min'') \<in> set details \<and>
     ([Idx 1], ''object.base'') \<in> set details"
proof -
  let ?doc = "Arr [Obj [(''watch'', Num 3), (''args'', Arr []),
              (''datasources'', Arr [Obj [(''alias'', Str ''a-b'')]])], Num 7]"
  let ?w = "world0\<lparr>YAML_parse := (\<lambda>s. Inr ?doc)\<rparr>"
  let ?conf = "''[{watch: 3, args: [], datasources: [{alias: a-b}]}, 7]''"
  let ?vs = "[([Idx 0, Key ''watch''], ''boolean.base''),
       ([Idx 0, Key ''datasources'', Idx 0], ''string.base''),
       ([Idx 0, Key ''datasources'', Idx 0, Key ''url''], ''any.required''),
       ([Idx 0, Key ''datasources'', Idx 0, Key ''alias''], ''string.alphanum''),
       ([Idx 0, Key ''args''], ''array.min''), ([Idx 1], ''object.base'')]"
  have y: "YAML_parse ?w ?conf = Inr ?doc" by simp
  have av: "all_violations ?w ConfigSchema [] ?doc = Inr (?vs, ?doc)" by code_simp
  from validation_aggregates [OF y] obtain violations val details where
    v: "all_violations ?w ConfigSchema [] ?doc = Inr (violations, val)"
    and d: "violations \<noteq> [] \<longrightarrow> parseConfig ?w ?conf = Inl (ValidationError details) \<and>
            set details \<subseteq> set violations \<and> (\<forall>d \<in> set violations. d \<in> set details \<or> masked d details)"
    by blast
  have vs: "violations = ?vs" using v av by simp
  then have p: "parseConfig ?w ?conf = Inl (ValidationError details)"
    and sub: "set details \<subseteq> set ?vs"
    and all: "\<forall>d \<in> set ?vs. d \<in> set details \<or> masked d details"
    using d by simp_all
  have nm: "\<not> masked ([Idx 0, Key ''args''], ''array.min'') details"
    using sub by (auto simp: masked_def array_of_def list_ex_iff)
  have "([Idx 0, Key ''watch''], ''boolean.base'') \<in> set details"
    using all by (simp add: masked_def)
  moreover have "([Idx 0, Key ''datasources'', Idx 0, Key ''url''], ''any.required'') \<in> set details"
    using all by (simp add: masked_def)
  moreover have "([Idx 0, Key ''datasources'', Idx 0, Key ''alias''], ''string.alphanum'') \<in> set details"
    using all by (simp add: masked_def)
  moreover have "([Idx 0, Key ''args''], ''array.min'') \<in> set details"
    using all nm by simp
  moreover have "([Idx 1], ''object.base'') \<in> set details"
    using all by (simp add: masked_def)
  ultimately show ?thesis using p by blast
qed

end
